theory Spec2Isabelle
  imports Main "HOL-Library.Word" "HOL-Library.Signed_Division"
begin

unbundle bit_operations_syntax

section \<open>TaskQueueSuper: indices, the age word and the two sizes\<close>

text \<open>
  \<^verbatim>\<open>juint\<close> is an unsigned 32-bit integer and \<^verbatim>\<open>jushort\<close> an unsigned 16-bit one.
  Arithmetic on both wraps around, as the arithmetic of \<open>'a word\<close> does.
\<close>

type_synonym juint = "32 word"
type_synonym jushort = "16 word"

text \<open>\<^verbatim>\<open>enum SomeProtectedConstants { Log_n = 14 }\<close>, \<^verbatim>\<open>n() = 1 << Log_n\<close>,
  \<^verbatim>\<open>n_mod_mask() = n() - 1\<close>, \<^verbatim>\<open>max_elems() = n() - 2\<close>.\<close>

definition Log_n :: nat where
  "Log_n = 14"

definition tq_n :: juint where
  "tq_n = push_bit Log_n 1"

definition n_mod_mask :: juint where
  "n_mod_mask = tq_n - 1"

definition max_elems :: juint where
  "max_elems = tq_n - 2"

text \<open>\<^verbatim>\<open>struct Age { jushort _top; jushort _tag; }\<close>. The two fields fill one 32-bit word
  that is read, written and compared-and-swapped as a whole; a value of the record stands
  for that word, and equality of records is \<^verbatim>\<open>operator ==\<close> of the source (both fields
  equal).\<close>

record Age =
  age_top :: jushort
  age_tag :: jushort

definition increment_index :: "juint \<Rightarrow> juint" where
  "increment_index ind = (ind + 1) AND n_mod_mask"

definition decrement_index :: "juint \<Rightarrow> juint" where
  "decrement_index ind = (ind - 1) AND n_mod_mask"

text \<open>\<^verbatim>\<open>((jint)bot - (jint)top) & n_mod_mask()\<close>: the difference is taken on 32-bit
  two's complement values and the mask is applied to its bit pattern, which is the
  wrapping difference of the two words.\<close>

definition dirty_size :: "juint \<Rightarrow> juint \<Rightarrow> juint" where
  "dirty_size bt tp = (bt - tp) AND n_mod_mask"

definition size_tq :: "juint \<Rightarrow> juint \<Rightarrow> juint" where
  "size_tq bt tp = (let sz = dirty_size bt tp in if sz = tq_n - 1 then 0 else sz)"

section \<open>Shared memory and the other threads\<close>

text \<open>
  \<^verbatim>\<open>GenericTaskQueue<E>\<close> has the fields \<^verbatim>\<open>_bottom\<close>, \<^verbatim>\<open>_age\<close> and \<^verbatim>\<open>_elems\<close>, an array
  of \<^verbatim>\<open>n()\<close> slots allocated by \<^verbatim>\<open>initialize\<close>. The slots are a store from indices to
  elements; an access at an index outside \<open>[0, n())\<close> is outside the array and is a
  fault of the model.
\<close>

datatype fault = OutOfBounds | NullPointer | Uninitialised

record 'e queue =
  bottom :: juint
  age :: Age
  elems :: "nat \<Rightarrow> 'e"

text \<open>
  Queues live in a heap and are named by their address (\<^verbatim>\<open>this\<close>). The operations of a
  queue run next to other threads. Every access to shared memory is one atomic step;
  before each such step the other threads may have changed the heap. What they do is
  given by a schedule: before each shared access of the running thread the next entry of
  the schedule, if there is one, is applied to the heap. The empty schedule is a run
  without interference. Memory is sequentially consistent in this model.
\<close>

type_synonym 'e heap = "nat \<Rightarrow> 'e queue"

record 'e world =
  heap :: "'e heap"
  sched :: "('e heap \<Rightarrow> 'e heap) list"

definition others_run :: "'e world \<Rightarrow> 'e world" where
  "others_run w = (case sched w of [] \<Rightarrow> w | f # fs \<Rightarrow> w\<lparr>heap := f (heap w), sched := fs\<rparr>)"

definition upd_queue :: "nat \<Rightarrow> ('e queue \<Rightarrow> 'e queue) \<Rightarrow> 'e world \<Rightarrow> 'e world" where
  "upd_queue this f w = w\<lparr>heap := (heap w)(this := f (heap w this))\<rparr>"

text \<open>The shared accesses: the volatile reads and writes of \<^verbatim>\<open>_bottom\<close>, the single
  atomic read and write of the age word (\<^verbatim>\<open>get_age\<close>, \<^verbatim>\<open>set_age\<close>), the reads and writes of
  a slot, and \<^verbatim>\<open>Atomic::cmpxchg(exchange_value, dest, compare_value)\<close> on the age word,
  which returns the value it found.\<close>

definition load_bottom :: "nat \<Rightarrow> 'e world \<Rightarrow> juint \<times> 'e world" where
  "load_bottom this w = (let w' = others_run w in (bottom (heap w' this), w'))"

definition store_bottom :: "nat \<Rightarrow> juint \<Rightarrow> 'e world \<Rightarrow> 'e world" where
  "store_bottom this b w = upd_queue this (\<lambda>q. q\<lparr>bottom := b\<rparr>) (others_run w)"

definition get_age :: "nat \<Rightarrow> 'e world \<Rightarrow> Age \<times> 'e world" where
  "get_age this w = (let w' = others_run w in (age (heap w' this), w'))"

definition set_age :: "nat \<Rightarrow> Age \<Rightarrow> 'e world \<Rightarrow> 'e world" where
  "set_age this a w = upd_queue this (\<lambda>q. q\<lparr>age := a\<rparr>) (others_run w)"

definition get_top :: "nat \<Rightarrow> 'e world \<Rightarrow> jushort \<times> 'e world" where
  "get_top this w = (case get_age this w of (a, w') \<Rightarrow> (age_top a, w'))"

definition cmpxchg_age :: "Age \<Rightarrow> nat \<Rightarrow> Age \<Rightarrow> 'e world \<Rightarrow> Age \<times> 'e world" where
  "cmpxchg_age exchange_value this compare_value w =
     (let w' = others_run w; found = age (heap w' this)
      in (found, if found = compare_value
                 then upd_queue this (\<lambda>q. q\<lparr>age := exchange_value\<rparr>) w' else w'))"

definition load_elem :: "nat \<Rightarrow> nat \<Rightarrow> 'e world \<Rightarrow> fault + ('e \<times> 'e world)" where
  "load_elem this i w =
     (if i < unat tq_n then (let w' = others_run w in Inr (elems (heap w' this) i, w'))
      else Inl OutOfBounds)"

definition store_elem :: "nat \<Rightarrow> nat \<Rightarrow> 'e \<Rightarrow> 'e world \<Rightarrow> fault + 'e world" where
  "store_elem this i t w =
     (if i < unat tq_n
      then Inr (upd_queue this (\<lambda>q. q\<lparr>elems := (elems q)(i := t)\<rparr>) (others_run w))
      else Inl OutOfBounds)"

section \<open>GenericTaskQueue: push, pop\_local, pop\_global\<close>

text \<open>The \<^verbatim>\<open>assert\<close>s of the source are checks of debug builds and no steps of the
  operations; they are not part of the definitions. What they assert is stated as lemmas
  where it bears on a result.\<close>

text \<open>\<^verbatim>\<open>size()\<close> and \<^verbatim>\<open>dirty_size()\<close> of a queue read \<^verbatim>\<open>_bottom\<close> and the age word (the
  order of the two reads is not fixed by the source; \<^verbatim>\<open>_bottom\<close> is read first here).\<close>

definition size_this :: "nat \<Rightarrow> 'e world \<Rightarrow> juint \<times> 'e world" where
  "size_this this w =
     (case load_bottom this w of (b, w1) \<Rightarrow>
      case get_top this w1 of (tp, w2) \<Rightarrow> (size_tq b (ucast tp), w2))"

definition dirty_size_this :: "nat \<Rightarrow> 'e world \<Rightarrow> juint \<times> 'e world" where
  "dirty_size_this this w =
     (case load_bottom this w of (b, w1) \<Rightarrow>
      case get_top this w1 of (tp, w2) \<Rightarrow> (dirty_size b (ucast tp), w2))"

definition push_slow :: "nat \<Rightarrow> 'e \<Rightarrow> juint \<Rightarrow> 'e world \<Rightarrow> fault + (bool \<times> 'e world)" where
  "push_slow this t dirty_n_elems w =
     (if dirty_n_elems = tq_n - 1 then
        (case load_bottom this w of (localBot, w1) \<Rightarrow>
         case store_elem this (unat localBot) t w1 of
           Inl f \<Rightarrow> Inl f
         | Inr w2 \<Rightarrow> Inr (True, store_bottom this (increment_index localBot) w2))
      else Inr (False, w))"

definition push :: "nat \<Rightarrow> 'e \<Rightarrow> 'e world \<Rightarrow> fault + (bool \<times> 'e world)" where
  "push this t w =
     (case load_bottom this w of (localBot, w1) \<Rightarrow>
      case get_top this w1 of (tp, w2) \<Rightarrow>
        let dirty_n_elems = dirty_size localBot (ucast tp) in
        if dirty_n_elems < max_elems then
          (case store_elem this (unat localBot) t w2 of
             Inl f \<Rightarrow> Inl f
           | Inr w3 \<Rightarrow> Inr (True, store_bottom this (increment_index localBot) w3))
        else push_slow this t dirty_n_elems w2)"

text \<open>\<^verbatim>\<open>newAge._top = localBot\<close> keeps the low 16 bits of \<^verbatim>\<open>localBot\<close>. The result is the
  returned flag and the world after the last access.\<close>

definition pop_local_slow :: "nat \<Rightarrow> juint \<Rightarrow> Age \<Rightarrow> 'e world \<Rightarrow> bool \<times> 'e world" where
  "pop_local_slow this localBot oldAge w =
     (let newAge = \<lparr>age_top = ucast localBot, age_tag = age_tag oldAge + 1\<rparr> in
      if localBot = ucast (age_top oldAge) then
        (case cmpxchg_age newAge this oldAge w of (tempAge, w1) \<Rightarrow>
           if tempAge = oldAge then (True, w1)
           else (False, set_age this newAge w1))
      else (False, set_age this newAge w))"

text \<open>The out-parameter \<^verbatim>\<open>E& t\<close> is passed in and returned: a call that returns before
  the load leaves it as it was.\<close>

definition pop_local :: "nat \<Rightarrow> 'e \<Rightarrow> 'e world \<Rightarrow> fault + (bool \<times> 'e \<times> 'e world)" where
  "pop_local this t w =
     (case load_bottom this w of (localBot0, w1) \<Rightarrow>
      case get_top this w1 of (tp0, w2) \<Rightarrow>
        let dirty_n_elems = dirty_size localBot0 (ucast tp0) in
        if dirty_n_elems = 0 then Inr (False, t, w2)
        else
          let localBot = decrement_index localBot0;
              w3 = store_bottom this localBot w2
          in case load_elem this (unat localBot) w3 of
               Inl f \<Rightarrow> Inl f
             | Inr (t', w4) \<Rightarrow>
                 (case get_top this w4 of (tp, w5) \<Rightarrow>
                    if size_tq localBot (ucast tp) > 0 then Inr (True, t', w5)
                    else (case get_age this w5 of (oldAge, w6) \<Rightarrow>
                            case pop_local_slow this localBot oldAge w6 of
                              (r, w7) \<Rightarrow> Inr (r, t', w7))))"

definition pop_global :: "nat \<Rightarrow> 'e \<Rightarrow> 'e world \<Rightarrow> fault + (bool \<times> 'e \<times> 'e world)" where
  "pop_global this t w =
     (case get_age this w of (oldAge, w1) \<Rightarrow>
      case load_bottom this w1 of (localBot, w2) \<Rightarrow>
        let n_elems = size_tq localBot (ucast (age_top oldAge)) in
        if n_elems = 0 then Inr (False, t, w2)
        else
          (case load_elem this (unat (age_top oldAge)) w2 of
             Inl f \<Rightarrow> Inl f
           | Inr (t', w3) \<Rightarrow>
               let newAge0 = oldAge\<lparr>age_top := ucast (increment_index (ucast (age_top oldAge)))\<rparr>;
                   newAge = (if age_top newAge0 = 0
                             then newAge0\<lparr>age_tag := age_tag newAge0 + 1\<rparr> else newAge0)
               in case cmpxchg_age newAge this oldAge w3 of
                    (resAge, w4) \<Rightarrow> Inr (resAge = oldAge, t', w4)))"

section \<open>GenericTaskQueueSet: the steal policies\<close>

text \<open>
  \<^verbatim>\<open>int\<close> values (\<^verbatim>\<open>_n\<close>, queue numbers, seeds) are integers of the 32-bit two's complement
  range. Where the source computes a value that may leave that range (\<^verbatim>\<open>2 * _n\<close>,
  \<^verbatim>\<open>queue_num + 1\<close>) the result is wrapped by \<open>s32\<close>; loop counters stay below a bound
  of the range and are incremented as they are. \<^verbatim>\<open>%\<close> truncates towards zero (\<open>smod\<close>).
\<close>

definition s32 :: "int \<Rightarrow> int" where
  "s32 x = (x + 2147483648) mod 4294967296 - 2147483648"

text \<open>\<^verbatim>\<open>_queues\<close> is an array of \<^verbatim>\<open>_n\<close> pointers, \<^verbatim>\<open>NULL\<close> until \<^verbatim>\<open>register_queue\<close> fills a
  slot. A pointer is the address of a queue in the heap.\<close>

record GenericTaskQueueSet =
  set_n :: int
  set_queues :: "nat option list"

definition register_queue :: "int \<Rightarrow> nat \<Rightarrow> GenericTaskQueueSet \<Rightarrow> fault + GenericTaskQueueSet" where
  "register_queue i q s =
     (if 0 \<le> i \<and> i < int (length (set_queues s))
      then Inr (s\<lparr>set_queues := (set_queues s)[nat i := Some q]\<rparr>)
      else Inl OutOfBounds)"

text \<open>\<^verbatim>\<open>_queues[i]-> ...\<close>: the read of slot \<open>i\<close> and the dereference of what it holds.\<close>

definition queue_at :: "GenericTaskQueueSet \<Rightarrow> int \<Rightarrow> fault + nat" where
  "queue_at s i =
     (if 0 \<le> i \<and> i < int (length (set_queues s))
      then (case set_queues s ! nat i of None \<Rightarrow> Inl NullPointer | Some q \<Rightarrow> Inr q)
      else Inl OutOfBounds)"

text \<open>A steal returns its flag together with the three things it may have changed: the
  seed behind \<^verbatim>\<open>int* seed\<close>, the out-parameter \<^verbatim>\<open>E& t\<close> and the world.\<close>

type_synonym 'e stolen = "fault + (bool \<times> int \<times> 'e \<times> 'e world)"

definition size_at :: "GenericTaskQueueSet \<Rightarrow> int \<Rightarrow> 'e world \<Rightarrow> fault + (juint \<times> 'e world)" where
  "size_at s k w = (case queue_at s k of Inl f \<Rightarrow> Inl f | Inr q \<Rightarrow> Inr (size_this q w))"

definition pop_global_at :: "GenericTaskQueueSet \<Rightarrow> int \<Rightarrow> int \<Rightarrow> 'e \<Rightarrow> 'e world \<Rightarrow> 'e stolen" where
  "pop_global_at s k seed t w =
     (case queue_at s k of
        Inl f \<Rightarrow> Inl f
      | Inr q \<Rightarrow> (case pop_global q t w of
                    Inl f \<Rightarrow> Inl f
                  | Inr (r, t', w') \<Rightarrow> Inr (r, seed, t', w')))"

text \<open>
  \<^verbatim>\<open>randomParkAndMiller(int* seed0)\<close> is declared in the class and defined elsewhere. The
  steal policies take it as a parameter \<open>rng\<close>: from the seed to the number returned and
  the seed left behind.

  \<^verbatim>\<open>while (again(k)) k = randomParkAndMiller(seed) % _n;\<close> is the loop of all three places
  that draw a victim; \<open>again\<close> is the loop condition. The loop need not end, so the
  result is an option and \<open>None\<close> is a run that never leaves the loop.
\<close>

type_synonym random_gen = "int \<Rightarrow> int \<times> int"

partial_function (option) draw_victim ::
  "random_gen \<Rightarrow> int \<Rightarrow> (int \<Rightarrow> bool) \<Rightarrow> int \<Rightarrow> int \<Rightarrow> (int \<times> int) option" where
  "draw_victim rng n again k seed =
     (if again k
      then (case rng seed of (r, seed') \<Rightarrow> draw_victim rng n again (r smod n) seed')
      else Some (k, seed))"

definition steal_1_random ::
  "random_gen \<Rightarrow> GenericTaskQueueSet \<Rightarrow> int \<Rightarrow> int \<Rightarrow> 'e \<Rightarrow> 'e world \<Rightarrow> 'e stolen option" where
  "steal_1_random rng s queue_num seed t w =
     (if set_n s > 2 then
        (case draw_victim rng (set_n s) (\<lambda>k. k = queue_num) queue_num seed of
           None \<Rightarrow> None
         | Some (k, seed') \<Rightarrow> Some (pop_global_at s 2 seed' t w))
      else if set_n s = 2 then
        (let k = s32 (queue_num + 1) smod 2 in Some (pop_global_at s k seed t w))
      else Some (Inr (False, seed, t, w)))"

definition steal_best_of_2 ::
  "random_gen \<Rightarrow> GenericTaskQueueSet \<Rightarrow> int \<Rightarrow> int \<Rightarrow> 'e \<Rightarrow> 'e world \<Rightarrow> 'e stolen option" where
  "steal_best_of_2 rng s queue_num seed t w =
     (if set_n s > 2 then
        (case draw_victim rng (set_n s) (\<lambda>k1. k1 = queue_num) queue_num seed of
           None \<Rightarrow> None
         | Some (k1, seed1) \<Rightarrow>
             (case draw_victim rng (set_n s) (\<lambda>k2. k2 = queue_num \<or> k2 = k1) queue_num seed1 of
                None \<Rightarrow> None
              | Some (k2, seed2) \<Rightarrow>
                  Some (case size_at s k1 w of
                          Inl f \<Rightarrow> Inl f
                        | Inr (sz1, w1) \<Rightarrow>
                            (case size_at s k2 w1 of
                               Inl f \<Rightarrow> Inl f
                             | Inr (sz2, w2) \<Rightarrow>
                                 if sz2 > sz1 then pop_global_at s k2 seed2 t w2
                                 else pop_global_at s k1 seed2 t w2))))
      else if set_n s = 2 then
        (let k = s32 (queue_num + 1) smod 2 in Some (pop_global_at s k seed t w))
      else Some (Inr (False, seed, t, w)))"

text \<open>The scan of \<^verbatim>\<open>steal_best_of_all\<close>. \<^verbatim>\<open>best_k\<close> starts without a value; \<^verbatim>\<open>jint sz\<close> is
  the size read as a signed 32-bit value.\<close>

function best_of_all_scan ::
  "GenericTaskQueueSet \<Rightarrow> int \<Rightarrow> int \<Rightarrow> int option \<Rightarrow> int \<Rightarrow> 'e world
   \<Rightarrow> fault + (int option \<times> int \<times> 'e world)" where
  "best_of_all_scan s queue_num k best_k best_sz w =
     (if k < set_n s then
        (if k = queue_num then best_of_all_scan s queue_num (k + 1) best_k best_sz w
         else (case size_at s k w of
                 Inl f \<Rightarrow> Inl f
               | Inr (usz, w') \<Rightarrow>
                   (if sint usz > best_sz
                    then best_of_all_scan s queue_num (k + 1) (Some k) (sint usz) w'
                    else best_of_all_scan s queue_num (k + 1) best_k best_sz w')))
      else Inr (best_k, best_sz, w))"
  by pat_completeness auto
termination
  by (relation "measure (\<lambda>(s, queue_num, k, best_k, best_sz, w). nat (set_n s - k))") auto

definition steal_best_of_all ::
  "GenericTaskQueueSet \<Rightarrow> int \<Rightarrow> int \<Rightarrow> 'e \<Rightarrow> 'e world \<Rightarrow> 'e stolen option" where
  "steal_best_of_all s queue_num seed t w =
     (if set_n s > 2 then
        Some (case best_of_all_scan s queue_num 0 None 0 w of
                Inl f \<Rightarrow> Inl f
              | Inr (best_k, best_sz, w') \<Rightarrow>
                  if best_sz > 0 then
                    (case best_k of
                       None \<Rightarrow> Inl Uninitialised
                     | Some k \<Rightarrow> pop_global_at s k seed t w')
                  else Inr (False, seed, t, w'))
      else if set_n s = 2 then
        (let k = s32 (queue_num + 1) smod 2 in Some (pop_global_at s k seed t w))
      else Some (Inr (False, seed, t, w)))"

text \<open>\<^verbatim>\<open>for (int i = 0; i < 2 * _n; i++) if (steal_best_of_2(queue_num, seed, t)) return true;\<close>\<close>

function steal_loop ::
  "random_gen \<Rightarrow> GenericTaskQueueSet \<Rightarrow> int \<Rightarrow> int \<Rightarrow> int \<Rightarrow> 'e \<Rightarrow> 'e world \<Rightarrow> 'e stolen option" where
  "steal_loop rng s queue_num i seed t w =
     (if i < s32 (2 * set_n s) then
        (case steal_best_of_2 rng s queue_num seed t w of
           None \<Rightarrow> None
         | Some (Inl f) \<Rightarrow> Some (Inl f)
         | Some (Inr (r, seed', t', w')) \<Rightarrow>
             if r then Some (Inr (True, seed', t', w'))
             else steal_loop rng s queue_num (i + 1) seed' t' w')
      else Some (Inr (False, seed, t, w)))"
  by pat_completeness auto
termination
  by (relation "measure (\<lambda>(rng, s, queue_num, i, seed, t, w). nat (s32 (2 * set_n s) - i))") auto

definition steal ::
  "random_gen \<Rightarrow> GenericTaskQueueSet \<Rightarrow> int \<Rightarrow> int \<Rightarrow> 'e \<Rightarrow> 'e world \<Rightarrow> 'e stolen option" where
  "steal rng s queue_num seed t w = steal_loop rng s queue_num 0 seed t w"

text \<open>The recursive equations of the two loops are unfolded by hand in the proofs;
  the loop of \<open>draw_victim\<close> is run on numerals by its equation.\<close>

declare steal_loop.simps [simp del]
declare best_of_all_scan.simps [simp del]
declare draw_victim.simps [code]

section \<open>The random generator and the words of the specification for steal\<close>

text \<open>
  Modelled from the spec: the body of \<^verbatim>\<open>randomParkAndMiller\<close>, which the class only
  declares. The specification gives it as the Park--Miller generator
  \<open>seed = (seed * 16807) mod (2^31 - 1)\<close> on the caller's seed word; the new seed is the
  number returned. It is used only to run the steal policies on concrete seeds; every
  general statement below is about an arbitrary \<open>rng\<close>.
\<close>

definition park_miller :: random_gen where
  "park_miller seed = (let seed' = (seed * 16807) mod 2147483647 in (seed', seed'))"

text \<open>
  The specification's words for \<open>steal\<close>: make up to \<open>m\<close> best-of-two attempts and
  return true on the first success. \<open>spec_steal\<close> follows these words, with \<open>m\<close> the
  number of attempts that are left;
  \<open>failed_attempts j\<close> is what \<open>j\<close> attempts in a row leave behind when each of them
  returns false (and \<open>None\<close> when one of them does anything else).
\<close>

fun spec_steal ::
  "random_gen \<Rightarrow> GenericTaskQueueSet \<Rightarrow> int \<Rightarrow> nat \<Rightarrow> int \<Rightarrow> 'e \<Rightarrow> 'e world \<Rightarrow> 'e stolen option" where
  "spec_steal rng s queue_num 0 seed t w = Some (Inr (False, seed, t, w))"
| "spec_steal rng s queue_num (Suc m) seed t w =
     (case steal_best_of_2 rng s queue_num seed t w of
        None \<Rightarrow> None
      | Some (Inl f) \<Rightarrow> Some (Inl f)
      | Some (Inr (r, seed', t', w')) \<Rightarrow>
          if r then Some (Inr (True, seed', t', w'))
          else spec_steal rng s queue_num m seed' t' w')"

fun failed_attempts ::
  "random_gen \<Rightarrow> GenericTaskQueueSet \<Rightarrow> int \<Rightarrow> nat \<Rightarrow> int \<Rightarrow> 'e \<Rightarrow> 'e world
   \<Rightarrow> (int \<times> 'e \<times> 'e world) option" where
  "failed_attempts rng s queue_num 0 seed t w = Some (seed, t, w)"
| "failed_attempts rng s queue_num (Suc j) seed t w =
     (case steal_best_of_2 rng s queue_num seed t w of
        Some (Inr (False, seed', t', w')) \<Rightarrow> failed_attempts rng s queue_num j seed' t' w'
      | _ \<Rightarrow> None)"

section \<open>Indices inside the array\<close>

text \<open>A queue is in range when \<open>bottom\<close> and \<open>top\<close> are indices of the array. A world
  keeps the range of a queue when the queue is in range and every pending step of the
  other threads leaves it so.\<close>

definition in_range :: "'e queue \<Rightarrow> bool" where
  "in_range q = (unat (bottom q) < unat tq_n \<and> unat (age_top (age q)) < unat tq_n)"

definition keeps_range :: "nat \<Rightarrow> 'e world \<Rightarrow> bool" where
  "keeps_range this w =
     (in_range (heap w this) \<and>
      (\<forall>f \<in> set (sched w). \<forall>h. in_range (h this) \<longrightarrow> in_range (f h this)))"

text \<open>Only the owner of a queue writes its \<^verbatim>\<open>_bottom\<close>: a world is owner-only for a
  queue when no pending step of the other threads changes that field.\<close>

definition owner_only :: "nat \<Rightarrow> 'e world \<Rightarrow> bool" where
  "owner_only this w = (\<forall>f \<in> set (sched w). \<forall>h. bottom (f h this) = bottom (h this))"

section \<open>Worlds at rest, for running the operations\<close>

text \<open>A queue at rest that holds the elements \<open>xs\<close> from slot \<open>0\<close> on, a world of such
  queues in which no other thread runs, and sets of one, two and three queues that live at
  the addresses \<open>10\<close>, \<open>11\<close> and \<open>12\<close>.\<close>

definition queue_of :: "nat list \<Rightarrow> nat queue" where
  "queue_of xs = \<lparr>bottom = of_nat (length xs), age = \<lparr>age_top = 0, age_tag = 0\<rparr>,
                  elems = (\<lambda>i. if i < length xs then xs ! i else 0)\<rparr>"

definition quiet_world :: "(nat \<Rightarrow> nat list) \<Rightarrow> nat world" where
  "quiet_world holds = \<lparr>heap = (\<lambda>a. queue_of (holds a)), sched = []\<rparr>"

definition one_queue :: GenericTaskQueueSet where
  "one_queue = \<lparr>set_n = 1, set_queues = [Some 10]\<rparr>"

definition two_queues :: GenericTaskQueueSet where
  "two_queues = \<lparr>set_n = 2, set_queues = [Some 10, Some 11]\<rparr>"

definition three_queues :: GenericTaskQueueSet where
  "three_queues = \<lparr>set_n = 3, set_queues = [Some 10, Some 11, Some 12]\<rparr>"

section \<open>Arithmetic of the index operations\<close>

lemma tq_n_eq: "tq_n = 16384"
  by (simp add: tq_n_def Log_n_def)

lemma n_mod_mask_eq: "n_mod_mask = mask 14"
  by (simp add: n_mod_mask_def tq_n_eq mask_eq_exp_minus_1)

lemma uint_and_n_mod_mask: "uint (w AND n_mod_mask) = uint w mod 16384"
proof -
  have "uint (w AND n_mod_mask) = uint (take_bit 14 w)"
    by (simp only: n_mod_mask_eq take_bit_eq_mask)
  also have "\<dots> = take_bit 14 (uint w)"
    by (simp only: unsigned_take_bit_eq)
  also have "\<dots> = uint w mod 2 ^ 14"
    by (simp only: take_bit_eq_mod)
  finally show ?thesis by simp
qed

lemma uint_dirty_size: "uint (dirty_size bt tp) = (uint bt - uint tp) mod 16384"
proof -
  have "uint (dirty_size bt tp) = (uint (bt - tp)) mod 16384"
    by (simp add: dirty_size_def uint_and_n_mod_mask)
  also have "\<dots> = ((uint bt - uint tp) mod 2 ^ 32) mod 16384"
    by (simp add: uint_word_ariths)
  also have "\<dots> = (uint bt - uint tp) mod 16384"
    by (rule mod_mod_cancel) simp
  finally show ?thesis .
qed

lemma uint_increment_index: "uint (increment_index x) = (uint x + 1) mod 16384"
proof -
  have "uint (increment_index x) = uint (x + 1) mod 16384"
    by (simp add: increment_index_def uint_and_n_mod_mask)
  also have "\<dots> = ((uint x + 1) mod 2 ^ 32) mod 16384"
    by (simp add: uint_word_ariths)
  also have "\<dots> = (uint x + 1) mod 16384"
    by (rule mod_mod_cancel) simp
  finally show ?thesis .
qed

lemma unat_increment_index: "unat (increment_index x) = (unat x + 1) mod 16384"
proof -
  have "int (unat (increment_index x)) = int ((unat x + 1) mod 16384)"
    using uint_increment_index [of x] by (simp add: zmod_int add.commute)
  then show ?thesis by (simp only: of_nat_eq_iff)
qed

lemma increment_index_eq: "increment_index x = of_nat ((unat x + 1) mod unat tq_n)"
proof -
  have "(unat x + 1) mod 16384 < 16384" by simp
  then have "(unat x + 1) mod 16384 < 4294967296" by linarith
  then have "unat (of_nat ((unat x + 1) mod 16384) :: juint) = (unat x + 1) mod 16384"
    by (simp add: unat_of_nat)
  then show ?thesis
    by (simp only: word_unat_eq_iff unat_increment_index tq_n_eq) simp
qed

lemma max_elems_eq: "max_elems = 16382"
  by (simp add: max_elems_def tq_n_eq)

lemma dirty_size_less_max: "dirty_size bt tp < max_elems \<longleftrightarrow> uint (dirty_size bt tp) < 16382"
  by (simp add: max_elems_eq word_less_def)

lemma dirty_cases:
  "uint (dirty_size bt tp) < 16382 \<or> uint (dirty_size bt tp) = 16382 \<or> uint (dirty_size bt tp) = 16383"
proof -
  have "(uint bt - uint tp) mod 16384 < 16384" by simp
  then show ?thesis unfolding uint_dirty_size by linarith
qed

lemma dirty_size_n1: "dirty_size bt tp = tq_n - 1 \<longleftrightarrow> uint (dirty_size bt tp) = 16383"
proof -
  have "dirty_size bt tp = tq_n - 1 \<longleftrightarrow> uint (dirty_size bt tp) = uint (tq_n - 1)"
    by (simp only: word_uint_eq_iff)
  then show ?thesis by (simp add: tq_n_eq)
qed

lemma uint_ucast_up: "uint (ucast (tp :: jushort) :: juint) = uint tp"
  by (simp add: uint_up_ucast is_up)

lemma uint_ucast_down_small:
  assumes "uint (x :: juint) < 65536"
  shows "uint (ucast x :: jushort) = uint x"
  using assms by (simp add: unsigned_ucast_eq take_bit_eq_mod)

lemma uint_new_top:
  "uint (ucast (increment_index (ucast (tp :: jushort))) :: jushort) = (uint tp + 1) mod 16384"
proof -
  have e: "uint (increment_index (ucast tp)) = (uint tp + 1) mod 16384"
    by (simp only: uint_increment_index uint_ucast_up)
  moreover have "(uint tp + 1) mod 16384 < 16384" by simp
  ultimately have "uint (increment_index (ucast tp)) < 65536" by linarith
  then have "uint (ucast (increment_index (ucast tp)) :: jushort) = uint (increment_index (ucast tp))"
    by (rule uint_ucast_down_small)
  from this e show ?thesis by (rule trans)
qed

lemma unat_new_top:
  "unat (ucast (increment_index (ucast (tp :: jushort))) :: jushort) = (unat tp + 1) mod 16384"
proof -
  have "int (unat (ucast (increment_index (ucast tp)) :: jushort)) = int ((unat tp + 1) mod 16384)"
    using uint_new_top [of tp] by (simp add: zmod_int add.commute)
  then show ?thesis by (simp only: of_nat_eq_iff)
qed

lemma unat_of_nat_mod_n: "unat (of_nat (k mod 16384) :: jushort) = k mod 16384"
proof -
  have "k mod 16384 < 16384" by simp
  then have "k mod 16384 < 65536" by linarith
  then show ?thesis by (simp add: unat_of_nat)
qed

lemma of_nat_mod_n_zero: "(of_nat (k mod 16384) :: jushort) = 0 \<longleftrightarrow> k mod 16384 = 0"
  using unat_of_nat_mod_n [of k] by (metis unat_eq_0)

lemma new_top_eq:
  "(ucast (increment_index (ucast (tp :: jushort))) :: jushort) = of_nat ((unat tp + 1) mod 16384)"
  by (simp only: word_unat_eq_iff unat_new_top unat_of_nat_mod_n)

lemma pop_global_newAge:
  "(let newAge0 = oldAge\<lparr>age_top := ucast (increment_index (ucast (age_top oldAge)))\<rparr>
    in if age_top newAge0 = 0 then newAge0\<lparr>age_tag := age_tag newAge0 + 1\<rparr> else newAge0)
   = \<lparr>age_top = of_nat ((unat (age_top oldAge) + 1) mod unat tq_n),
      age_tag = (if (unat (age_top oldAge) + 1) mod unat tq_n = 0
                 then age_tag oldAge + 1 else age_tag oldAge)\<rparr>"
  by (cases oldAge) (simp add: Let_def new_top_eq of_nat_mod_n_zero tq_n_eq)

lemma ucast_ucast_small:
  assumes "unat (x :: juint) < 65536"
  shows "(ucast (ucast x :: jushort) :: juint) = x"
proof -
  have "uint x = int (unat x)" by simp
  with assms have "uint x < 65536" by linarith
  then have "uint (ucast (ucast x :: jushort) :: juint) = uint x"
    by (simp add: uint_ucast_up uint_ucast_down_small)
  then show ?thesis by (simp only: word_uint_eq_iff)
qed

lemma unat_ucast_small:
  assumes "unat (x :: juint) < 65536"
  shows "unat (ucast x :: jushort) = unat x"
proof -
  have "uint x = int (unat x)" by simp
  with assms have "uint x < 65536" by linarith
  then have "uint (ucast x :: jushort) = uint x"
    by (rule uint_ucast_down_small)
  then have "nat (uint (ucast x :: jushort)) = nat (uint x)" by simp
  then show ?thesis by (simp only: nat_uint_eq)
qed

lemma dirty_size_same: "dirty_size x x = 0"
  by (simp add: dirty_size_def)

lemma size_tq_same: "size_tq x x = 0"
  by (simp add: size_tq_def dirty_size_same)

lemma age_upd_queue: "age (heap (upd_queue this (\<lambda>q. q\<lparr>age := a\<rparr>) w) this) = a"
  by (simp add: upd_queue_def)

lemma bottom_upd_queue_age:
  "bottom (heap (upd_queue this (\<lambda>q. q\<lparr>age := a\<rparr>) w) this) = bottom (heap w this)"
  by (simp add: upd_queue_def)

lemma pop_local_slow_eq:
  "pop_local_slow this localBot oldAge w =
     (let newAge = \<lparr>age_top = ucast localBot, age_tag = age_tag oldAge + 1\<rparr>;
          w1 = others_run w
      in if localBot = ucast (age_top oldAge) then
           (if age (heap w1 this) = oldAge
            then (True, upd_queue this (\<lambda>q. q\<lparr>age := newAge\<rparr>) w1)
            else (False, upd_queue this (\<lambda>q. q\<lparr>age := newAge\<rparr>) (others_run w1)))
         else (False, upd_queue this (\<lambda>q. q\<lparr>age := newAge\<rparr>) w1))"
  by (simp add: pop_local_slow_def cmpxchg_age_def set_age_def Let_def)

section \<open>No operation leaves the array\<close>

text \<open>
  Every index that an operation stores into \<open>bottom\<close> or \<open>top\<close> is masked, so from a
  world that keeps the range of a queue \<open>push\<close>, \<open>pop_local\<close> and \<open>pop_global\<close> return
  without a fault and leave a world that keeps the range. The assertion at the end of
  \<open>pop_global\<close>, \<^verbatim>\<open>dirty_size(localBot, newAge._top) != n() - 1\<close>, holds in every call that
  reaches it.
\<close>

lemma uint_decrement_index: "uint (decrement_index x) = (uint x - 1) mod 16384"
proof -
  have "uint (decrement_index x) = uint (x - 1) mod 16384"
    by (simp add: decrement_index_def uint_and_n_mod_mask)
  also have "\<dots> = ((uint x - 1) mod 2 ^ 32) mod 16384"
    by (simp add: uint_word_ariths)
  also have "\<dots> = (uint x - 1) mod 16384"
    by (rule mod_mod_cancel) simp
  finally show ?thesis .
qed

lemma increment_index_in_range: "unat (increment_index x) < unat tq_n"
  by (simp add: unat_increment_index tq_n_eq)

lemma decrement_index_in_range: "unat (decrement_index x) < unat tq_n"
proof -
  have "uint (decrement_index x) < 16384"
    by (simp add: uint_decrement_index)
  then have "int (unat (decrement_index x)) < 16384"
    by simp
  then have "unat (decrement_index x) < 16384"
    by linarith
  then show ?thesis by (simp add: tq_n_eq)
qed

lemma new_top_in_range:
  "unat (ucast (increment_index (ucast (tp :: jushort))) :: jushort) < unat tq_n"
  by (simp add: unat_new_top tq_n_eq)

lemma keeps_range_others_run: "keeps_range this w \<Longrightarrow> keeps_range this (others_run w)"
  by (cases "sched w") (auto simp: keeps_range_def others_run_def)

lemma keeps_range_upd:
  "keeps_range this w \<Longrightarrow> in_range (f (heap w this)) \<Longrightarrow> keeps_range this (upd_queue this f w)"
  by (simp add: keeps_range_def upd_queue_def)

lemma keeps_range_step:
  assumes "keeps_range this w" and "\<And>q. in_range q \<Longrightarrow> in_range (f q)"
  shows "keeps_range this (upd_queue this f (others_run w))"
proof -
  have k: "keeps_range this (others_run w)"
    using assms(1) by (rule keeps_range_others_run)
  then have "in_range (heap (others_run w) this)"
    by (simp add: keeps_range_def)
  then have "in_range (f (heap (others_run w) this))"
    by (rule assms(2))
  with k show ?thesis
    by (rule keeps_range_upd)
qed

lemma keeps_range_store_bottom:
  "keeps_range this w \<Longrightarrow> unat b < unat tq_n \<Longrightarrow> keeps_range this (store_bottom this b w)"
  unfolding store_bottom_def by (rule keeps_range_step) (simp_all add: in_range_def)

lemma keeps_range_set_age:
  "keeps_range this w \<Longrightarrow> unat (age_top a) < unat tq_n \<Longrightarrow> keeps_range this (set_age this a w)"
  unfolding set_age_def by (rule keeps_range_step) (simp_all add: in_range_def)

lemma keeps_range_store_elem:
  assumes "keeps_range this w" and "i < unat tq_n"
  shows "\<exists>w'. store_elem this i t w = Inr w' \<and> keeps_range this w'"
proof -
  have "keeps_range this (upd_queue this (\<lambda>q. q\<lparr>elems := (elems q)(i := t)\<rparr>) (others_run w))"
    using assms(1) by (rule keeps_range_step) (simp add: in_range_def)
  with assms(2) show ?thesis
    by (simp add: store_elem_def)
qed

lemma keeps_range_cmpxchg:
  assumes "keeps_range this w" and "unat (age_top a) < unat tq_n"
  shows "keeps_range this (snd (cmpxchg_age a this old w))"
proof -
  have "keeps_range this (upd_queue this (\<lambda>q. q\<lparr>age := a\<rparr>) (others_run w))"
    using assms(1) by (rule keeps_range_step) (simp add: in_range_def assms(2))
  moreover have "keeps_range this (others_run w)"
    using assms(1) by (rule keeps_range_others_run)
  ultimately show ?thesis
    by (simp add: cmpxchg_age_def Let_def)
qed

lemma keeps_range_bottom: "keeps_range this w \<Longrightarrow> unat (bottom (heap w this)) < unat tq_n"
  by (simp add: keeps_range_def in_range_def)

lemma keeps_range_top: "keeps_range this w \<Longrightarrow> unat (age_top (age (heap w this))) < unat tq_n"
  by (simp add: keeps_range_def in_range_def)

lemma push_in_range:
  assumes "keeps_range this w"
  shows "\<exists>r w'. push this t w = Inr (r, w') \<and> keeps_range this w'"
proof -
  let ?w1 = "others_run w" and ?w2 = "others_run (others_run w)"
  have k1: "keeps_range this ?w1" and k2: "keeps_range this ?w2"
    using assms by (simp_all add: keeps_range_others_run)
  let ?b = "bottom (heap ?w1 this)"
  have b: "unat ?b < unat tq_n" using k1 by (rule keeps_range_bottom)
  obtain w3 where w3: "store_elem this (unat ?b) t ?w2 = Inr w3" "keeps_range this w3"
    using keeps_range_store_elem [OF k2 b] by blast
  have fast: "keeps_range this (store_bottom this (increment_index ?b) w3)"
    using w3(2) increment_index_in_range by (rule keeps_range_store_bottom)
  let ?w3' = "others_run ?w2"
  have k3: "keeps_range this ?w3'" using k2 by (rule keeps_range_others_run)
  let ?b' = "bottom (heap ?w3' this)"
  have b': "unat ?b' < unat tq_n" using k3 by (rule keeps_range_bottom)
  obtain w4 where w4: "store_elem this (unat ?b') t ?w3' = Inr w4" "keeps_range this w4"
    using keeps_range_store_elem [OF k3 b'] by blast
  have slow: "keeps_range this (store_bottom this (increment_index ?b') w4)"
    using w4(2) increment_index_in_range by (rule keeps_range_store_bottom)
  have "push this t w =
      (if dirty_size ?b (ucast (age_top (age (heap ?w2 this)))) < max_elems
       then Inr (True, store_bottom this (increment_index ?b) w3)
       else if dirty_size ?b (ucast (age_top (age (heap ?w2 this)))) = tq_n - 1
       then Inr (True, store_bottom this (increment_index ?b') w4)
       else Inr (False, ?w2))"
    by (simp add: push_def push_slow_def load_bottom_def get_top_def get_age_def Let_def w3 w4)
  with fast slow k2 show ?thesis
    by auto
qed

lemma pop_global_in_range:
  assumes "keeps_range this w"
  shows "\<exists>r t' w'. pop_global this t w = Inr (r, t', w') \<and> keeps_range this w'"
proof -
  let ?w1 = "others_run w" and ?w2 = "others_run (others_run w)"
  let ?w3 = "others_run (others_run (others_run w))"
  have k1: "keeps_range this ?w1" and k2: "keeps_range this ?w2" and k3: "keeps_range this ?w3"
    using assms by (simp_all add: keeps_range_others_run)
  let ?old = "age (heap ?w1 this)"
  have tp: "unat (age_top ?old) < unat tq_n" using k1 by (rule keeps_range_top)
  have cas: "keeps_range this (snd (cmpxchg_age a this ?old ?w3))"
    if "unat (age_top a) < unat tq_n" for a
    using k3 that by (rule keeps_range_cmpxchg)
  show ?thesis
  proof (cases "size_tq (bottom (heap ?w2 this)) (ucast (age_top ?old)) = 0")
    case True
    then have "pop_global this t w = Inr (False, t, ?w2)"
      by (simp add: pop_global_def get_age_def load_bottom_def Let_def)
    with k2 show ?thesis by auto
  next
    case False
    define NEW where "NEW =
      (let newAge0 = ?old\<lparr>age_top := ucast (increment_index (ucast (age_top ?old)))\<rparr>
       in if age_top newAge0 = 0 then newAge0\<lparr>age_tag := age_tag newAge0 + 1\<rparr> else newAge0)"
    have "age_top NEW = ucast (increment_index (ucast (age_top ?old)))"
      by (simp add: NEW_def Let_def)
    then have n: "unat (age_top NEW) < unat tq_n"
      by (simp only: new_top_in_range)
    have r: "pop_global this t w =
          (case cmpxchg_age NEW this ?old ?w3 of
             (resAge, w4) \<Rightarrow>
               Inr (resAge = ?old, elems (heap ?w3 this) (unat (age_top ?old)), w4))"
      using False tp unfolding NEW_def
      by (simp add: pop_global_def get_age_def load_bottom_def load_elem_def Let_def)
    from cas [OF n] r show ?thesis
      by (auto split: prod.splits)
  qed
qed

lemma pop_global_assertion:
  assumes "size_tq b (ucast (tp :: jushort)) \<noteq> 0"
  shows "dirty_size b (ucast (ucast (increment_index (ucast tp)) :: jushort)) \<noteq> tq_n - 1"
proof -
  let ?d = "(uint b - uint tp) mod 16384"
  have d: "uint (dirty_size b (ucast tp)) = ?d"
    by (simp add: uint_dirty_size uint_ucast_up)
  have n1: "dirty_size b (ucast tp) \<noteq> tq_n - 1" and n0: "dirty_size b (ucast tp) \<noteq> 0"
    using assms by (auto simp: size_tq_def Let_def split: if_splits)
  from n1 have "?d \<noteq> 16383"
    by (simp add: dirty_size_n1 d)
  moreover from n0 have "?d \<noteq> 0"
    using d by (metis uint_0_iff)
  moreover have "0 \<le> ?d" "?d < 16384" by simp_all
  ultimately have rng: "1 \<le> ?d" "?d \<le> 16382" by linarith+
  have "uint (dirty_size b (ucast (ucast (increment_index (ucast tp)) :: jushort)))
        = (uint b - (uint tp + 1) mod 16384) mod 16384"
    by (simp add: uint_dirty_size uint_ucast_up uint_new_top)
  also have "\<dots> = (uint b - (uint tp + 1)) mod 16384"
    by (simp add: mod_diff_right_eq)
  also have "\<dots> = (?d - 1) mod 16384"
    by (simp add: mod_diff_left_eq algebra_simps)
  also have "\<dots> = ?d - 1"
    using rng by simp
  finally have "uint (dirty_size b (ucast (ucast (increment_index (ucast tp)) :: jushort))) \<noteq> 16383"
    using rng by linarith
  then show ?thesis
    by (simp add: dirty_size_n1)
qed


lemma pop_local_slow_in_range:
  assumes "keeps_range this w" and "unat localBot < unat tq_n"
  shows "keeps_range this (snd (pop_local_slow this localBot oldAge w))"
proof -
  define newAge where "newAge = \<lparr>age_top = ucast localBot, age_tag = age_tag oldAge + 1\<rparr>"
  have "unat localBot < 65536"
    using assms(2) by (simp add: tq_n_eq)
  then have "unat (age_top newAge) = unat localBot"
    by (simp add: newAge_def unat_ucast_small)
  with assms(2) have ok: "in_range (q\<lparr>age := newAge\<rparr>)" if "in_range q" for q :: "'a queue"
    using that by (simp add: in_range_def)
  have k1: "keeps_range this (others_run w)"
    using assms(1) by (rule keeps_range_others_run)
  have a: "keeps_range this (upd_queue this (\<lambda>q. q\<lparr>age := newAge\<rparr>) (others_run w))"
    using assms(1) ok by (rule keeps_range_step)
  have b: "keeps_range this (upd_queue this (\<lambda>q. q\<lparr>age := newAge\<rparr>) (others_run (others_run w)))"
    using k1 ok by (rule keeps_range_step)
  from a b show ?thesis
    by (auto simp: pop_local_slow_eq Let_def newAge_def)
qed

lemma pop_local_in_range:
  assumes "keeps_range this w"
  shows "\<exists>r t' w'. pop_local this t w = Inr (r, t', w') \<and> keeps_range this w'"
proof -
  let ?w1 = "others_run w" and ?w2 = "others_run (others_run w)"
  have k2: "keeps_range this ?w2"
    using assms by (simp add: keeps_range_others_run)
  let ?b0 = "bottom (heap ?w1 this)"
  let ?d = "dirty_size ?b0 (ucast (age_top (age (heap ?w2 this))))"
  show ?thesis
  proof (cases "?d = 0")
    case True
    then have "pop_local this t w = Inr (False, t, ?w2)"
      by (simp add: pop_local_def load_bottom_def get_top_def get_age_def Let_def)
    with k2 show ?thesis by auto
  next
    case False
    let ?lb = "decrement_index ?b0"
    have lb: "unat ?lb < unat tq_n"
      by (rule decrement_index_in_range)
    let ?w3 = "store_bottom this ?lb ?w2"
    have k3: "keeps_range this ?w3"
      using k2 lb by (rule keeps_range_store_bottom)
    let ?w4 = "others_run ?w3" and ?w5 = "others_run (others_run ?w3)"
    let ?w6 = "others_run (others_run (others_run ?w3))"
    have k5: "keeps_range this ?w5" and k6: "keeps_range this ?w6"
      using k3 by (simp_all add: keeps_range_others_run)
    let ?slow = "pop_local_slow this ?lb (age (heap ?w6 this)) ?w6"
    have k7: "keeps_range this (snd ?slow)"
      using k6 lb by (rule pop_local_slow_in_range)
    have "pop_local this t w =
        (if size_tq ?lb (ucast (age_top (age (heap ?w5 this)))) > 0
         then Inr (True, elems (heap ?w4 this) (unat ?lb), ?w5)
         else Inr (fst ?slow, elems (heap ?w4 this) (unat ?lb), snd ?slow))"
      using False lb
      by (simp add: pop_local_def load_bottom_def get_top_def get_age_def load_elem_def Let_def
          split: prod.splits)
    with k5 k7 show ?thesis by auto
  qed
qed

text \<open>
  The call of \<open>pop_local_slow\<close> in its context. \<open>pop_local\<close> passes the index it has
  just stored into \<open>bottom\<close>; when the other threads leave \<open>bottom\<close> alone, a
  \<open>pop_local\<close> that takes the slow path returns with \<open>bottom\<close> equal to \<open>top\<close> and
  size \<open>0\<close>.
\<close>

lemma owner_only_others_run:
  assumes "owner_only this w"
  shows "owner_only this (others_run w)"
    and "bottom (heap (others_run w) this) = bottom (heap w this)"
  using assms by (cases "sched w"; simp add: owner_only_def others_run_def)+

lemma owner_only_upd_queue: "owner_only this (upd_queue this f w) = owner_only this w"
  by (simp add: owner_only_def upd_queue_def)

lemma bottom_upd_queue_bottom:
  "bottom (heap (upd_queue this (\<lambda>q. q\<lparr>bottom := b\<rparr>) w) this) = b"
  by (simp add: upd_queue_def)

lemma pop_local_slow_leaves_empty:
  assumes "owner_only this w" and "bottom (heap w this) = localBot"
    and "unat localBot < unat tq_n"
  shows "ucast (age_top (age (heap (snd (pop_local_slow this localBot oldAge w)) this)))
           = bottom (heap (snd (pop_local_slow this localBot oldAge w)) this)"
proof -
  define newAge where "newAge = \<lparr>age_top = ucast localBot, age_tag = age_tag oldAge + 1\<rparr>"
  let ?w' = "snd (pop_local_slow this localBot oldAge w)"
  have o1: "owner_only this (others_run w)"
    and b1: "bottom (heap (others_run w) this) = localBot"
    using owner_only_others_run [OF assms(1)] assms(2) by simp_all
  have b2: "bottom (heap (others_run (others_run w)) this) = localBot"
    using owner_only_others_run(2) [OF o1] b1 by simp
  have "?w' = upd_queue this (\<lambda>q. q\<lparr>age := newAge\<rparr>) (others_run w)
      \<or> ?w' = upd_queue this (\<lambda>q. q\<lparr>age := newAge\<rparr>) (others_run (others_run w))"
    by (simp add: pop_local_slow_eq Let_def newAge_def)
  then have a: "age (heap ?w' this) = newAge" and b: "bottom (heap ?w' this) = localBot"
    using b1 b2 by (auto simp: age_upd_queue bottom_upd_queue_age)
  have "unat localBot < 65536"
    using assms(3) by (simp add: tq_n_eq)
  then have "ucast (age_top newAge) = localBot"
    by (simp add: newAge_def ucast_ucast_small)
  with a b show ?thesis by simp
qed

lemma pop_local_slow_path_leaves_empty:
  fixes w :: "'e world" and this :: nat
  defines "w2 \<equiv> others_run (others_run w)"
  defines "lb \<equiv> decrement_index (bottom (heap (others_run w) this))"
  defines "w5 \<equiv> others_run (others_run (store_bottom this lb w2))"
  assumes own: "owner_only this w"
    and nonempty: "dirty_size (bottom (heap (others_run w) this)) (ucast (age_top (age (heap w2 this)))) \<noteq> 0"
    and contested: "size_tq lb (ucast (age_top (age (heap w5 this)))) = 0"
  shows "\<exists>r t' w'. pop_local this t w = Inr (r, t', w')
           \<and> ucast (age_top (age (heap w' this))) = bottom (heap w' this)
           \<and> size_tq (bottom (heap w' this)) (ucast (age_top (age (heap w' this)))) = 0"
proof -
  have lb: "unat lb < unat tq_n"
    unfolding lb_def by (rule decrement_index_in_range)
  have o2: "owner_only this w2"
    unfolding w2_def using own by (simp add: owner_only_others_run)
  let ?w3 = "store_bottom this lb w2"
  have o3: "owner_only this ?w3" and b3: "bottom (heap ?w3 this) = lb"
    using o2 by (simp_all add: store_bottom_def owner_only_upd_queue owner_only_others_run
        bottom_upd_queue_bottom)
  let ?w6 = "others_run w5"
  have o6: "owner_only this ?w6" and b6: "bottom (heap ?w6 this) = lb"
    unfolding w5_def using o3 b3 by (simp_all add: owner_only_others_run)
  let ?slow = "pop_local_slow this lb (age (heap ?w6 this)) ?w6"
  have e: "ucast (age_top (age (heap (snd ?slow) this))) = bottom (heap (snd ?slow) this)"
    using o6 b6 lb by (rule pop_local_slow_leaves_empty)
  have "pop_local this t w =
          Inr (fst ?slow, elems (heap (others_run ?w3) this) (unat lb), snd ?slow)"
    using nonempty contested lb
    by (simp add: pop_local_def load_bottom_def get_top_def get_age_def load_elem_def Let_def
        w2_def lb_def w5_def split: prod.splits)
  with e show ?thesis
    by (auto simp: size_tq_same)
qed

section \<open>Facts about the loops of the queue set\<close>

lemma draw_victim_stops:
  assumes "draw_victim rng n again k seed = Some y"
  shows "\<not> again (fst y)"
proof (rule draw_victim.raw_induct
    [where P = "\<lambda>rng' n' again' k' seed' y'. \<not> again' (fst y')", OF _ assms])
  fix draw :: "random_gen \<Rightarrow> int \<Rightarrow> (int \<Rightarrow> bool) \<Rightarrow> int \<Rightarrow> int \<Rightarrow> (int \<times> int) option"
    and rng' n' again' k' seed' y'
  assume IH: "\<And>rng n again k seed y. draw rng n again k seed = Some y \<Longrightarrow> \<not> again (fst y)"
    and eq: "(if again' k'
              then case rng' seed' of (r, s') \<Rightarrow> draw rng' n' again' (r smod n') s'
              else Some (k', seed')) = Some y'"
  show "\<not> again' (fst y')"
  proof (cases "again' k'")
    case True
    obtain r s' where rs: "rng' seed' = (r, s')" by (cases "rng' seed'")
    from eq True rs have "draw rng' n' again' (r smod n') s' = Some y'" by simp
    then show ?thesis by (rule IH)
  next
    case False
    with eq have "y' = (k', seed')" by simp
    with False show ?thesis by simp
  qed
qed


lemma s32_id: "- 2147483648 \<le> x \<Longrightarrow> x < 2147483648 \<Longrightarrow> s32 x = x"
  by (simp add: s32_def)

lemma smod_2_nonneg: "0 \<le> x \<Longrightarrow> x smod 2 = x mod (2 :: int)"
  by (cases "x = 0") (simp_all add: signed_modulo_int_def)

lemma other_index: "0 \<le> q \<Longrightarrow> q < 2147483647 \<Longrightarrow> s32 (q + 1) smod 2 = (q + 1) mod 2"
  by (simp add: s32_id smod_2_nonneg)

lemma steal_loop_attempts:
  "steal_loop rng s queue_num i seed (t :: 'e) w =
     spec_steal rng s queue_num (nat (s32 (2 * set_n s) - i)) seed t w"
proof (induction "nat (s32 (2 * set_n s) - i)" arbitrary: i seed t w)
  case 0
  then have "\<not> i < s32 (2 * set_n s)" by simp
  with 0 show ?case by (simp add: steal_loop.simps [of rng s queue_num i])
next
  case (Suc m)
  then have lt: "i < s32 (2 * set_n s)" by linarith
  from Suc(2) have m: "m = nat (s32 (2 * set_n s) - (i + 1))" by linarith
  have IH: "steal_loop rng s queue_num (i + 1) seed' t' w' =
            spec_steal rng s queue_num m seed' t' w'"
    for seed' and t' :: 'e and w' :: "'e world"
    using Suc(1) [OF m] m by simp
  have "steal_loop rng s queue_num i seed t w =
        (case steal_best_of_2 rng s queue_num seed t w of
           None \<Rightarrow> None
         | Some (Inl f) \<Rightarrow> Some (Inl f)
         | Some (Inr (r, seed', t', w')) \<Rightarrow>
             if r then Some (Inr (True, seed', t', w'))
             else steal_loop rng s queue_num (i + 1) seed' t' w')"
    using lt by (subst steal_loop.simps) simp
  also have "\<dots> = spec_steal rng s queue_num (Suc m) seed t w"
    by (simp add: IH split: option.splits sum.splits)
  finally show ?case
    by (simp only: Suc(2))
qed

lemma steal_eq_attempts:
  assumes "- 1073741824 \<le> set_n s" and "set_n s < 1073741824"
  shows "steal rng s queue_num seed t w =
           spec_steal rng s queue_num (nat (2 * set_n s)) seed t w"
proof -
  have "s32 (2 * set_n s) = 2 * set_n s"
    using assms by (intro s32_id) simp_all
  then show ?thesis
    by (simp add: steal_def steal_loop_attempts)
qed

lemma attempts_all_fail:
  "failed_attempts rng s queue_num m seed t w = Some (seed', t', w') \<Longrightarrow>
   spec_steal rng s queue_num m seed t w = Some (Inr (False, seed', t', w'))"
proof (induction m arbitrary: seed t w)
  case 0
  then show ?case by simp
next
  case (Suc m)
  from Suc.prems obtain s1 t1 w1 where
    a: "steal_best_of_2 rng s queue_num seed t w = Some (Inr (False, s1, t1, w1))" and
    r: "failed_attempts rng s queue_num m s1 t1 w1 = Some (seed', t', w')"
    by (auto split: option.splits sum.splits bool.splits)
  from Suc.IH [OF r] a show ?case by simp
qed

lemma attempts_first_success:
  "failed_attempts rng s queue_num j seed t w = Some (sj, tj, wj) \<Longrightarrow>
   steal_best_of_2 rng s queue_num sj tj wj = Some (Inr (True, x)) \<Longrightarrow>
   j < m \<Longrightarrow>
   spec_steal rng s queue_num m seed t w = Some (Inr (True, x))"
proof (induction j arbitrary: seed t w m)
  case 0
  then obtain m' where "m = Suc m'" by (cases m) auto
  with 0 show ?case by (cases x) simp
next
  case (Suc j)
  from Suc.prems(1) obtain s1 t1 w1 where
    a: "steal_best_of_2 rng s queue_num seed t w = Some (Inr (False, s1, t1, w1))" and
    r: "failed_attempts rng s queue_num j s1 t1 w1 = Some (sj, tj, wj)"
    by (auto split: option.splits sum.splits bool.splits)
  from Suc.prems(3) obtain m' where m: "m = Suc m'" and lt: "j < m'" by (cases m) auto
  from Suc.IH [OF r Suc.prems(2) lt] a m show ?case by simp
qed

lemma steal_1_random_victim:
  assumes "2 < set_n s"
    and "draw_victim rng (set_n s) (\<lambda>k. k = queue_num) queue_num seed = Some (k, seed')"
  shows "k \<noteq> queue_num \<and>
         steal_1_random rng s queue_num seed t w = Some (pop_global_at s 2 seed' t w)"
  using assms draw_victim_stops [OF assms(2)] by (simp add: steal_1_random_def)

text \<open>Runs on numerals: the definitions to unfold, and three draws of the generator.\<close>

lemmas run_defs =
  pop_global_at_def size_at_def size_this_def queue_at_def one_queue_def two_queues_def three_queues_def
  pop_global_def get_age_def get_top_def load_bottom_def load_elem_def cmpxchg_age_def
  increment_index_def upd_queue_def Let_def quiet_world_def queue_of_def others_run_def
  size_tq_def dirty_size_def n_mod_mask_def tq_n_eq

lemma draw_3_0: "draw_victim park_miller 3 (\<lambda>k. k = 0) 0 1 = Some (1, 16807)"
  by code_simp

lemma draw_3_0_1: "draw_victim park_miller 3 (\<lambda>k. k = 0 \<or> k = 1) 0 16807 = Some (2, 1622650073)"
  by code_simp

lemma draw_3_2: "draw_victim park_miller 3 (\<lambda>k. k = 2) 2 1 = Some (1, 16807)"
  by code_simp

section \<open>The two sizes\<close>

text \<open>
  C4. For every pair of indices, \<open>size\<close> is the difference \<open>(bottom - top) mod N\<close> with
  the value \<open>N - 1\<close> mapped to \<open>0\<close>; so \<open>size\<close> lies in \<open>[0, N - 2]\<close> and the dirty
  size in \<open>[0, N - 1]\<close>. (\<open>N = n() = 16384\<close>.)
\<close>

theorem size_tq_spec:
  "uint (dirty_size bt tp) = (uint bt - uint tp) mod uint tq_n
   \<and> uint (size_tq bt tp) =
       (if (uint bt - uint tp) mod uint tq_n = uint tq_n - 1 then 0
        else (uint bt - uint tp) mod uint tq_n)
   \<and> 0 \<le> uint (size_tq bt tp) \<and> uint (size_tq bt tp) \<le> uint tq_n - 2
   \<and> 0 \<le> uint (dirty_size bt tp) \<and> uint (dirty_size bt tp) \<le> uint tq_n - 1"
proof -
  let ?d = "(uint bt - uint tp) mod 16384"
  have d: "uint (dirty_size bt tp) = ?d"
    by (rule uint_dirty_size)
  have "?d < 16384"
    by simp
  then have rng: "?d \<le> 16383"
    by linarith
  have eq: "dirty_size bt tp = 16383 \<longleftrightarrow> ?d = 16383"
  proof
    assume "dirty_size bt tp = 16383"
    then have "uint (dirty_size bt tp) = uint (16383 :: juint)" by simp
    then show "?d = 16383" by (simp add: d)
  next
    assume "?d = 16383"
    then have "uint (dirty_size bt tp) = uint (16383 :: juint)" by (simp add: d)
    then show "dirty_size bt tp = 16383" by (simp only: word_uint_eq_iff)
  qed
  have s: "uint (size_tq bt tp) = (if ?d = 16383 then 0 else ?d)"
    using eq by (simp add: size_tq_def Let_def tq_n_eq d)
  from d s rng show ?thesis
    by (auto simp: tq_n_eq)
qed

section \<open>The operations of a queue\<close>

text \<open>
  C1. Every call to \<open>pop_global\<close> reads the age word, then \<open>bottom\<close>, and computes
  \<open>n = size(bottom, oldAge.top)\<close>. If \<open>n = 0\<close> it returns false and leaves the
  out-parameter as it was. Otherwise it loads the slot at \<open>oldAge.top\<close> into the
  out-parameter (from the heap as it is before the compare-and-swap), builds \<open>newAge\<close> with
  \<open>top = (oldAge.top + 1) mod N\<close> and the tag incremented exactly when that new top
  is \<open>0\<close>, and returns true exactly when the one compare-and-swap of the age word from
  \<open>oldAge\<close> to \<open>newAge\<close> finds \<open>oldAge\<close> there. (A top outside the array, which no
  operation ever stores, is the fault \<open>OutOfBounds\<close>.)
\<close>

theorem pop_global_spec:
  "pop_global this t w =
    (let w1 = others_run w; oldAge = age (heap w1 this);
         w2 = others_run w1; b = bottom (heap w2 this);
         n = size_tq b (ucast (age_top oldAge))
     in if n = 0 then Inr (False, t, w2)
        else if unat tq_n \<le> unat (age_top oldAge) then Inl OutOfBounds
        else
          let w3 = others_run w2;
              x = elems (heap w3 this) (unat (age_top oldAge));
              top' = (unat (age_top oldAge) + 1) mod unat tq_n;
              newAge = \<lparr>age_top = of_nat top',
                        age_tag = (if top' = 0 then age_tag oldAge + 1 else age_tag oldAge)\<rparr>;
              w4 = others_run w3;
              cas_ok = (age (heap w4 this) = oldAge)
          in Inr (cas_ok, x,
                  if cas_ok then upd_queue this (\<lambda>q. q\<lparr>age := newAge\<rparr>) w4 else w4))"
proof -
  define oldAge where "oldAge = age (heap (others_run w) this)"
  note na = pop_global_newAge [of oldAge, unfolded Let_def]
  show ?thesis
    unfolding pop_global_def get_age_def load_bottom_def load_elem_def cmpxchg_age_def Let_def
      oldAge_def [symmetric] prod.case na
    by (simp add: not_less)
qed

text \<open>
  C2. In every call to \<open>push\<close>, with \<open>d\<close> the dirty size of the \<open>bottom\<close> and \<open>top\<close>
  it reads: \<open>push\<close> returns false exactly when \<open>d = N - 2\<close> (so only when \<open>d\<close> is
  \<open>N - 2\<close> or \<open>N - 1\<close>); and when \<open>d = N - 1\<close> the size is \<open>0\<close> and \<open>push\<close>, on
  its slow path, reads \<open>bottom\<close>, stores the element in that slot, advances \<open>bottom\<close> to
  \<open>(bottom + 1) mod N\<close> and returns true. (Only the owner writes \<open>bottom\<close>, so the second
  read finds what the first found.)
\<close>

theorem push_spec:
  "(let w1 = others_run w; b = bottom (heap w1 this);
        w2 = others_run w1; tp = age_top (age (heap w2 this));
        d = dirty_size b (ucast tp)
    in ((\<exists>w'. push this t w = Inr (False, w')) \<longleftrightarrow> uint d = uint tq_n - 2)
     \<and> (uint d = uint tq_n - 2 \<longrightarrow> push this t w = Inr (False, w2))
     \<and> (uint d = uint tq_n - 1 \<longrightarrow>
          size_tq b (ucast tp) = 0 \<and>
          (let w3 = others_run w2; b' = bottom (heap w3 this) in
           push this t w =
             (if unat tq_n \<le> unat b' then Inl OutOfBounds
              else Inr (True,
                     upd_queue this (\<lambda>q. q\<lparr>bottom := of_nat ((unat b' + 1) mod unat tq_n)\<rparr>)
                       (others_run
                          (upd_queue this (\<lambda>q. q\<lparr>elems := (elems q)(unat b' := t)\<rparr>)
                             (others_run w3))))))))"
proof -
  define b where "b = bottom (heap (others_run w) this)"
  define tp where "tp = age_top (age (heap (others_run (others_run w)) this))"
  define d where "d = dirty_size b (ucast tp)"
  have p: "push this t w =
      (if d < max_elems then
         (case store_elem this (unat b) t (others_run (others_run w)) of
            Inl f \<Rightarrow> Inl f
          | Inr w3 \<Rightarrow> Inr (True, store_bottom this (increment_index b) w3))
       else push_slow this t d (others_run (others_run w)))"
    unfolding push_def load_bottom_def get_top_def get_age_def Let_def prod.case
      d_def tp_def b_def
    by (rule refl)
  consider (fast) "uint d < 16382" | (full) "uint d = 16382" | (empty) "uint d = 16383"
    using dirty_cases [of b "ucast tp"] by (auto simp: d_def)
  then have "((\<exists>w'. push this t w = Inr (False, w')) \<longleftrightarrow> uint d = uint tq_n - 2)
     \<and> (uint d = uint tq_n - 2 \<longrightarrow> push this t w = Inr (False, others_run (others_run w)))
     \<and> (uint d = uint tq_n - 1 \<longrightarrow>
          size_tq b (ucast tp) = 0 \<and>
          (let w3 = others_run (others_run (others_run w)); b' = bottom (heap w3 this) in
           push this t w =
             (if unat tq_n \<le> unat b' then Inl OutOfBounds
              else Inr (True,
                     upd_queue this (\<lambda>q. q\<lparr>bottom := of_nat ((unat b' + 1) mod unat tq_n)\<rparr>)
                       (others_run
                          (upd_queue this (\<lambda>q. q\<lparr>elems := (elems q)(unat b' := t)\<rparr>)
                             (others_run w3)))))))"
  proof cases
    case fast
    then have lt: "d < max_elems"
      by (simp add: d_def dirty_size_less_max)
    have "\<not> (\<exists>w'. push this t w = Inr (False, w'))"
      by (simp add: p lt store_elem_def split: sum.splits)
    with fast show ?thesis by (simp add: tq_n_eq)
  next
    case full
    then have nlt: "\<not> d < max_elems"
      by (simp add: d_def dirty_size_less_max)
    from full have ne: "d \<noteq> tq_n - 1"
      by (simp add: d_def dirty_size_n1)
    have "push this t w = Inr (False, others_run (others_run w))"
      by (simp add: p nlt push_slow_def ne)
    with full show ?thesis by (simp add: tq_n_eq)
  next
    case empty
    then have nlt: "\<not> d < max_elems"
      by (simp add: d_def dirty_size_less_max)
    from empty have e: "d = tq_n - 1"
      by (simp add: d_def dirty_size_n1)
    have sz: "size_tq b (ucast tp) = 0"
      using e by (simp add: size_tq_def d_def)
    have r: "push this t w =
        (let w3 = others_run (others_run (others_run w)); b' = bottom (heap w3 this) in
         if unat tq_n \<le> unat b' then Inl OutOfBounds
         else Inr (True,
                upd_queue this (\<lambda>q. q\<lparr>bottom := of_nat ((unat b' + 1) mod unat tq_n)\<rparr>)
                  (others_run
                     (upd_queue this (\<lambda>q. q\<lparr>elems := (elems q)(unat b' := t)\<rparr>)
                        (others_run w3)))))"
    proof -
      have "push this t w = push_slow this t d (others_run (others_run w))"
        by (simp add: p nlt)
      then show ?thesis
        by (simp add: push_slow_def e load_bottom_def store_elem_def store_bottom_def
            Let_def increment_index_eq not_less)
    qed
    then have "\<not> (\<exists>w'. push this t w = Inr (False, w'))"
      by (simp add: Let_def)
    with empty sz r show ?thesis by (simp add: tq_n_eq Let_def)
  qed
  then show ?thesis
    by (simp add: Let_def b_def tp_def d_def)
qed

theorem push_spec_witness:
  "uint (dirty_size 5 (ucast (6 :: jushort))) = uint tq_n - 1
   \<and> push 0 (7 :: nat)
        \<lparr>heap = (\<lambda>_. \<lparr>bottom = 5, age = \<lparr>age_top = 6, age_tag = 0\<rparr>, elems = (\<lambda>_. 0)\<rparr>),
         sched = []\<rparr>
     = Inr (True,
        \<lparr>heap = (\<lambda>_. \<lparr>bottom = 5, age = \<lparr>age_top = 6, age_tag = 0\<rparr>, elems = (\<lambda>_. 0)\<rparr>)
                 (0 := \<lparr>bottom = 6, age = \<lparr>age_top = 6, age_tag = 0\<rparr>, elems = (\<lambda>_. 0)(5 := 7)\<rparr>),
         sched = []\<rparr>)
   \<and> uint (dirty_size 16382 (ucast (0 :: jushort))) = uint tq_n - 2
   \<and> push 0 (7 :: nat)
        \<lparr>heap = (\<lambda>_. \<lparr>bottom = 16382, age = \<lparr>age_top = 0, age_tag = 0\<rparr>, elems = (\<lambda>_. 0)\<rparr>),
         sched = []\<rparr>
     = Inr (False,
        \<lparr>heap = (\<lambda>_. \<lparr>bottom = 16382, age = \<lparr>age_top = 0, age_tag = 0\<rparr>, elems = (\<lambda>_. 0)\<rparr>),
         sched = []\<rparr>)"
proof -
  have d1: "uint (dirty_size 5 6) = 16383"
    by (simp add: uint_dirty_size)
  have d2: "uint (dirty_size 16382 0) = 16382"
    by (simp add: uint_dirty_size)
  show ?thesis
    using
      push_spec [of "\<lparr>heap = (\<lambda>_. \<lparr>bottom = 5, age = \<lparr>age_top = 6, age_tag = 0\<rparr>, elems = (\<lambda>_. 0)\<rparr>),
         sched = []\<rparr>" 0 "7 :: nat"]
      push_spec [of "\<lparr>heap = (\<lambda>_. \<lparr>bottom = 16382, age = \<lparr>age_top = 0, age_tag = 0\<rparr>, elems = (\<lambda>_. 0)\<rparr>),
         sched = []\<rparr>" 0 "7 :: nat"]
    by (simp add: Let_def others_run_def upd_queue_def d1 d2 tq_n_eq)
qed

text \<open>
  C3. Every call \<open>pop_local_slow(localBot, oldAge)\<close> builds \<open>newAge\<close> with
  \<open>top = localBot\<close> and \<open>tag = oldAge.tag + 1\<close>. Only when \<open>oldAge.top = localBot\<close> does
  it try the compare-and-swap of the age word from \<open>oldAge\<close> to \<open>newAge\<close>, and it returns
  true when that succeeds. When the compare-and-swap is skipped or fails it stores
  \<open>newAge\<close> with a plain write and returns false. In every case the age word is \<open>newAge\<close>
  when the call returns, so with \<open>bottom = localBot\<close> (as \<open>pop_local\<close>, the one caller,
  has just stored it, \<open>localBot\<close> being an index) \<open>bottom\<close> equals \<open>age.top\<close>, the size is
  \<open>0\<close> and the dirty size is not \<open>N - 1\<close>.
\<close>

theorem pop_local_slow_spec:
  "(let newAge = \<lparr>age_top = ucast localBot, age_tag = age_tag oldAge + 1\<rparr>;
        w1 = others_run w;
        q' = heap (snd (pop_local_slow this localBot oldAge w)) this
    in pop_local_slow this localBot oldAge w =
         (if localBot = ucast (age_top oldAge) then
            (if age (heap w1 this) = oldAge
             then (True, upd_queue this (\<lambda>q. q\<lparr>age := newAge\<rparr>) w1)
             else (False, upd_queue this (\<lambda>q. q\<lparr>age := newAge\<rparr>) (others_run w1)))
          else (False, upd_queue this (\<lambda>q. q\<lparr>age := newAge\<rparr>) w1))
       \<and> age q' = newAge
       \<and> (unat localBot < 65536 \<longrightarrow> unat (age_top newAge) = unat localBot)
       \<and> (unat localBot < 65536 \<and> bottom q' = localBot \<longrightarrow>
            ucast (age_top (age q')) = bottom q'
            \<and> size_tq (bottom q') (ucast (age_top (age q'))) = 0
            \<and> dirty_size (bottom q') (ucast (age_top (age q'))) \<noteq> tq_n - 1))"
proof -
  define newAge where "newAge = \<lparr>age_top = ucast localBot, age_tag = age_tag oldAge + 1\<rparr>"
  define q' where "q' = heap (snd (pop_local_slow this localBot oldAge w)) this"
  have eq: "pop_local_slow this localBot oldAge w =
         (if localBot = ucast (age_top oldAge) then
            (if age (heap (others_run w) this) = oldAge
             then (True, upd_queue this (\<lambda>q. q\<lparr>age := newAge\<rparr>) (others_run w))
             else (False, upd_queue this (\<lambda>q. q\<lparr>age := newAge\<rparr>) (others_run (others_run w))))
          else (False, upd_queue this (\<lambda>q. q\<lparr>age := newAge\<rparr>) (others_run w)))"
    unfolding newAge_def by (simp add: pop_local_slow_eq Let_def)
  have a: "age q' = newAge"
    unfolding q'_def eq by (simp add: age_upd_queue)
  have t: "unat (age_top newAge) = unat localBot" if "unat localBot < 65536"
    using that by (simp add: newAge_def unat_ucast_small)
  have c: "ucast (age_top (age q')) = bottom q'
            \<and> size_tq (bottom q') (ucast (age_top (age q'))) = 0
            \<and> dirty_size (bottom q') (ucast (age_top (age q'))) \<noteq> tq_n - 1"
    if "unat localBot < 65536" and "bottom q' = localBot"
  proof -
    have "ucast (age_top (age q')) = localBot"
      using that(1) by (simp add: a newAge_def ucast_ucast_small)
    then show ?thesis
      using that(2) by (simp add: size_tq_same dirty_size_same tq_n_eq)
  qed
  from eq a t c show ?thesis
    unfolding Let_def newAge_def [symmetric] q'_def [symmetric] by blast
qed

theorem pop_local_slow_spec_witness:
  "unat (5 :: juint) < 65536
   \<and> pop_local_slow 0 5 \<lparr>age_top = 5, age_tag = 7\<rparr>
        \<lparr>heap = (\<lambda>_. \<lparr>bottom = 5, age = \<lparr>age_top = 5, age_tag = 7\<rparr>, elems = (\<lambda>_. 0 :: nat)\<rparr>),
         sched = []\<rparr>
     = (True,
        \<lparr>heap = (\<lambda>_. \<lparr>bottom = 5, age = \<lparr>age_top = 5, age_tag = 7\<rparr>, elems = (\<lambda>_. 0)\<rparr>)
                 (0 := \<lparr>bottom = 5, age = \<lparr>age_top = 5, age_tag = 8\<rparr>, elems = (\<lambda>_. 0)\<rparr>),
         sched = []\<rparr>)
   \<and> size_tq 5 (ucast (5 :: jushort)) = 0
   \<and> pop_local_slow 0 5 \<lparr>age_top = 5, age_tag = 7\<rparr>
        \<lparr>heap = (\<lambda>_. \<lparr>bottom = 5, age = \<lparr>age_top = 5, age_tag = 7\<rparr>, elems = (\<lambda>_. 0 :: nat)\<rparr>),
         sched = [\<lambda>h. h(0 := (h 0)\<lparr>age := \<lparr>age_top = 6, age_tag = 7\<rparr>\<rparr>)]\<rparr>
     = (False,
        \<lparr>heap = (\<lambda>_. \<lparr>bottom = 5, age = \<lparr>age_top = 5, age_tag = 7\<rparr>, elems = (\<lambda>_. 0)\<rparr>)
                 (0 := \<lparr>bottom = 5, age = \<lparr>age_top = 5, age_tag = 8\<rparr>, elems = (\<lambda>_. 0)\<rparr>),
         sched = []\<rparr>)"
  using
    pop_local_slow_spec [of 5 "\<lparr>age_top = 5, age_tag = 7\<rparr>"
      "\<lparr>heap = (\<lambda>_. \<lparr>bottom = 5, age = \<lparr>age_top = 5, age_tag = 7\<rparr>, elems = (\<lambda>_. 0 :: nat)\<rparr>),
        sched = []\<rparr>" 0]
    pop_local_slow_spec [of 5 "\<lparr>age_top = 5, age_tag = 7\<rparr>"
      "\<lparr>heap = (\<lambda>_. \<lparr>bottom = 5, age = \<lparr>age_top = 5, age_tag = 7\<rparr>, elems = (\<lambda>_. 0 :: nat)\<rparr>),
        sched = [\<lambda>h. h(0 := (h 0)\<lparr>age := \<lparr>age_top = 6, age_tag = 7\<rparr>\<rparr>)]\<rparr>" 0]
  by (simp add: Let_def others_run_def upd_queue_def size_tq_same)

text \<open>
  C9. When \<open>pop_local\<close> computes a dirty size of \<open>0\<close> from the \<open>bottom\<close> and \<open>top\<close> it
  reads, it returns false and has written nothing: the out-parameter is as it was, and the
  world is as the other threads left it at the second read (the very world of the call
  when no other thread runs), so \<open>bottom\<close>, the age word and the slots are untouched.
\<close>

theorem pop_local_empty:
  "(let w1 = others_run w; b = bottom (heap w1 this);
        w2 = others_run w1; tp = age_top (age (heap w2 this))
    in dirty_size b (ucast tp) = 0 \<longrightarrow>
         pop_local this t w = Inr (False, t, w2)
         \<and> (sched w = [] \<longrightarrow> pop_local this t w = Inr (False, t, w)))"
proof -
  have quiet: "others_run w = w" if "sched w = []"
    using that by (simp add: others_run_def)
  show ?thesis
    unfolding Let_def
  proof (intro impI conjI)
    assume d: "dirty_size (bottom (heap (others_run w) this))
                 (ucast (age_top (age (heap (others_run (others_run w)) this)))) = 0"
    then show r: "pop_local this t w = Inr (False, t, others_run (others_run w))"
      by (simp add: pop_local_def load_bottom_def get_top_def get_age_def Let_def)
    assume "sched w = []"
    with r show "pop_local this t w = Inr (False, t, w)"
      by (simp add: quiet)
  qed
qed

theorem pop_local_empty_witness:
  "dirty_size 5 (ucast (5 :: jushort)) = 0
   \<and> pop_local 11 7 (quiet_world ((\<lambda>_. [])(11 := [])))
       = Inr (False, 7, quiet_world ((\<lambda>_. [])(11 := [])))
   \<and> pop_local 0 (7 :: nat)
        \<lparr>heap = (\<lambda>_. \<lparr>bottom = 5, age = \<lparr>age_top = 5, age_tag = 3\<rparr>, elems = (\<lambda>_. 9)\<rparr>),
         sched = []\<rparr>
       = Inr (False, 7,
        \<lparr>heap = (\<lambda>_. \<lparr>bottom = 5, age = \<lparr>age_top = 5, age_tag = 3\<rparr>, elems = (\<lambda>_. 9)\<rparr>),
         sched = []\<rparr>)"
  using
    pop_local_empty [of "quiet_world ((\<lambda>_. [])(11 := []))" 11 7]
    pop_local_empty [of "\<lparr>heap = (\<lambda>_. \<lparr>bottom = 5, age = \<lparr>age_top = 5, age_tag = 3\<rparr>, elems = (\<lambda>_. 9)\<rparr>),
         sched = []\<rparr>" 0 "7 :: nat"]
  by (simp add: Let_def others_run_def quiet_world_def queue_of_def dirty_size_same)

text \<open>
  C10. \<open>pop_global\<close> loads the slot at \<open>oldAge.top\<close> into the out-parameter before its
  compare-and-swap. A call that finds size \<open>0\<close> returns false and leaves the
  out-parameter as it was. A call whose compare-and-swap fails returns false with the
  out-parameter overwritten by the loaded element all the same, and writes nothing else. A
  call returns true exactly when its compare-and-swap finds \<open>oldAge\<close>; then, and only
  then, the call has claimed the element: the out-parameter holds the slot at
  \<open>oldAge.top\<close> as loaded before the swap, and the swap has put \<open>newAge\<close>, whose top is
  one past that slot, in place of \<open>oldAge\<close>.
\<close>

theorem pop_global_out_parameter:
  "(let w1 = others_run w; oldAge = age (heap w1 this);
        w2 = others_run w1; b = bottom (heap w2 this);
        n = size_tq b (ucast (age_top oldAge));
        w3 = others_run w2; x = elems (heap w3 this) (unat (age_top oldAge));
        top' = (unat (age_top oldAge) + 1) mod unat tq_n;
        newAge = \<lparr>age_top = of_nat top',
                  age_tag = (if top' = 0 then age_tag oldAge + 1 else age_tag oldAge)\<rparr>;
        w4 = others_run w3; cas_ok = (age (heap w4 this) = oldAge)
    in (n = 0 \<longrightarrow> pop_global this t w = Inr (False, t, w2))
     \<and> (n \<noteq> 0 \<and> unat (age_top oldAge) < unat tq_n \<longrightarrow>
          (cas_ok \<longrightarrow>
             pop_global this t w = Inr (True, x, upd_queue this (\<lambda>q. q\<lparr>age := newAge\<rparr>) w4))
          \<and> (\<not> cas_ok \<longrightarrow> pop_global this t w = Inr (False, x, w4)))
     \<and> ((\<exists>x' w'. pop_global this t w = Inr (True, x', w')) \<longleftrightarrow>
          n \<noteq> 0 \<and> unat (age_top oldAge) < unat tq_n \<and> cas_ok)
     \<and> (\<forall>x' w'. pop_global this t w = Inr (True, x', w') \<longrightarrow>
          x' = x \<and> age (heap w4 this) = oldAge
          \<and> w' = upd_queue this (\<lambda>q. q\<lparr>age := newAge\<rparr>) w4
          \<and> age (heap w' this) = newAge))"
proof -
  define oldAge where "oldAge = age (heap (others_run w) this)"
  define w2 where "w2 = others_run (others_run w)"
  define n where "n = size_tq (bottom (heap w2 this)) (ucast (age_top oldAge))"
  define w3 where "w3 = others_run w2"
  define x where "x = elems (heap w3 this) (unat (age_top oldAge))"
  define newAge where "newAge =
    \<lparr>age_top = of_nat ((unat (age_top oldAge) + 1) mod unat tq_n),
     age_tag = (if (unat (age_top oldAge) + 1) mod unat tq_n = 0
                then age_tag oldAge + 1 else age_tag oldAge)\<rparr>"
  define w4 where "w4 = others_run w3"
  define won where "won = upd_queue this (\<lambda>q. q\<lparr>age := newAge\<rparr>) w4"
  note na = pop_global_newAge [of oldAge, unfolded Let_def]
  have eq: "pop_global this t w =
      (if n = 0 then Inr (False, t, w2)
       else if unat tq_n \<le> unat (age_top oldAge) then Inl OutOfBounds
       else Inr (age (heap w4 this) = oldAge, x,
                 if age (heap w4 this) = oldAge then won else w4))"
    unfolding pop_global_def get_age_def load_bottom_def load_elem_def cmpxchg_age_def Let_def
      prod.case won_def w4_def x_def w3_def n_def w2_def newAge_def oldAge_def [symmetric] na
    by (simp add: not_less)
  have a: "age (heap won this) = newAge"
    by (simp add: won_def age_upd_queue)
  have c1: "n = 0 \<longrightarrow> pop_global this t w = Inr (False, t, w2)"
    by (simp add: eq)
  have c2: "n \<noteq> 0 \<and> unat (age_top oldAge) < unat tq_n \<longrightarrow>
          (age (heap w4 this) = oldAge \<longrightarrow> pop_global this t w = Inr (True, x, won))
          \<and> (age (heap w4 this) \<noteq> oldAge \<longrightarrow> pop_global this t w = Inr (False, x, w4))"
    by (simp add: eq not_le)
  have c3: "(\<exists>x' w'. pop_global this t w = Inr (True, x', w')) \<longleftrightarrow>
          n \<noteq> 0 \<and> unat (age_top oldAge) < unat tq_n \<and> age (heap w4 this) = oldAge"
    by (auto simp: eq not_le split: if_splits)
  have c4: "\<forall>x' w'. pop_global this t w = Inr (True, x', w') \<longrightarrow>
          x' = x \<and> age (heap w4 this) = oldAge \<and> w' = won \<and> age (heap w' this) = newAge"
    using a by (auto simp: eq split: if_splits)
  from c1 c2 c3 c4 show ?thesis
    unfolding Let_def won_def w4_def x_def w3_def n_def w2_def newAge_def oldAge_def
    by blast
qed

theorem pop_global_out_parameter_witness:
  "size_tq 1 (ucast (0 :: jushort)) \<noteq> 0 \<and> unat (0 :: jushort) < unat tq_n
   \<and> pop_global 0 (7 :: nat)
        \<lparr>heap = (\<lambda>_. \<lparr>bottom = 1, age = \<lparr>age_top = 0, age_tag = 0\<rparr>, elems = (\<lambda>_. 42)\<rparr>),
         sched = []\<rparr>
       = Inr (True, 42,
        \<lparr>heap = (\<lambda>_. \<lparr>bottom = 1, age = \<lparr>age_top = 0, age_tag = 0\<rparr>, elems = (\<lambda>_. 42)\<rparr>)
                 (0 := \<lparr>bottom = 1, age = \<lparr>age_top = 1, age_tag = 0\<rparr>, elems = (\<lambda>_. 42)\<rparr>),
         sched = []\<rparr>)
   \<and> pop_global 0 (7 :: nat)
        \<lparr>heap = (\<lambda>_. \<lparr>bottom = 1, age = \<lparr>age_top = 0, age_tag = 0\<rparr>, elems = (\<lambda>_. 42)\<rparr>),
         sched = [\<lambda>h. h, \<lambda>h. h, \<lambda>h. h,
                  \<lambda>h. h(0 := (h 0)\<lparr>bottom := 0, age := \<lparr>age_top = 0, age_tag = 1\<rparr>\<rparr>)]\<rparr>
       = Inr (False, 42,
        \<lparr>heap = (\<lambda>_. \<lparr>bottom = 1, age = \<lparr>age_top = 0, age_tag = 0\<rparr>, elems = (\<lambda>_. 42)\<rparr>)
                 (0 := \<lparr>bottom = 0, age = \<lparr>age_top = 0, age_tag = 1\<rparr>, elems = (\<lambda>_. 42)\<rparr>),
         sched = []\<rparr>)
   \<and> size_tq 0 (ucast (0 :: jushort)) = 0
   \<and> pop_global 0 (7 :: nat)
        \<lparr>heap = (\<lambda>_. \<lparr>bottom = 0, age = \<lparr>age_top = 0, age_tag = 0\<rparr>, elems = (\<lambda>_. 42)\<rparr>),
         sched = []\<rparr>
       = Inr (False, 7,
        \<lparr>heap = (\<lambda>_. \<lparr>bottom = 0, age = \<lparr>age_top = 0, age_tag = 0\<rparr>, elems = (\<lambda>_. 42)\<rparr>),
         sched = []\<rparr>)"
proof -
  have s1: "size_tq 1 0 = 1" and s0: "size_tq 0 0 = 0"
    by (simp_all add: size_tq_def dirty_size_def n_mod_mask_def tq_n_eq)
  note won = pop_global_out_parameter [of
        "\<lparr>heap = (\<lambda>_. \<lparr>bottom = 1, age = \<lparr>age_top = 0, age_tag = 0\<rparr>, elems = (\<lambda>_. 42)\<rparr>),
          sched = []\<rparr>"
        0 "7 :: nat", unfolded Let_def, THEN conjunct2, THEN conjunct1]
  note lost = pop_global_out_parameter [of
        "\<lparr>heap = (\<lambda>_. \<lparr>bottom = 1, age = \<lparr>age_top = 0, age_tag = 0\<rparr>, elems = (\<lambda>_. 42)\<rparr>),
          sched = [\<lambda>h. h, \<lambda>h. h, \<lambda>h. h,
                   \<lambda>h. h(0 := (h 0)\<lparr>bottom := 0, age := \<lparr>age_top = 0, age_tag = 1\<rparr>\<rparr>)]\<rparr>"
        0 "7 :: nat", unfolded Let_def, THEN conjunct2, THEN conjunct1]
  note empty = pop_global_out_parameter [of
        "\<lparr>heap = (\<lambda>_. \<lparr>bottom = 0, age = \<lparr>age_top = 0, age_tag = 0\<rparr>, elems = (\<lambda>_. 42)\<rparr>),
          sched = []\<rparr>"
        0 "7 :: nat", unfolded Let_def, THEN conjunct1]
  show ?thesis
    using won lost empty
    by (simp add: others_run_def upd_queue_def s1 s0 tq_n_eq)
qed

section \<open>The steal policies\<close>

text \<open>
  C6. Every call to \<open>steal\<close> on a set of \<open>N\<close> queues (\<open>2 * N\<close> within the range of
  \<^verbatim>\<open>int\<close>) makes at most \<open>2 * N\<close> best-of-two attempts: it is the specification's
  \<open>spec_steal\<close> with \<open>2 * N\<close> attempts to go. It returns true as soon as an attempt
  succeeds (after \<open>j < 2 * N\<close> failed ones), with what that attempt stole, and it returns
  false when all \<open>2 * N\<close> attempts fail.
\<close>

theorem steal_spec:
  assumes "- 1073741824 \<le> set_n s" and "set_n s < 1073741824"
  shows "steal rng s queue_num seed t w
           = spec_steal rng s queue_num (nat (2 * set_n s)) seed t w
       \<and> (\<forall>j sj tj wj x.
             j < nat (2 * set_n s) \<and>
             failed_attempts rng s queue_num j seed t w = Some (sj, tj, wj) \<and>
             steal_best_of_2 rng s queue_num sj tj wj = Some (Inr (True, x)) \<longrightarrow>
             steal rng s queue_num seed t w = Some (Inr (True, x)))
       \<and> (\<forall>seed' t' w'.
             failed_attempts rng s queue_num (nat (2 * set_n s)) seed t w = Some (seed', t', w') \<longrightarrow>
             steal rng s queue_num seed t w = Some (Inr (False, seed', t', w')))"
  using steal_eq_attempts [OF assms] attempts_first_success attempts_all_fail
  by (metis (no_types, lifting))

theorem steal_spec_witness:
  "- 1073741824 \<le> set_n two_queues \<and> set_n two_queues < 1073741824
   \<and> nat (2 * set_n two_queues) = 4
   \<and> steal park_miller two_queues 0 1 0 (quiet_world ((\<lambda>_. [])(11 := [42])))
       = Some (Inr (True, 1, 42,
                upd_queue 11 (\<lambda>q. q\<lparr>age := \<lparr>age_top = 1, age_tag = 0\<rparr>\<rparr>)
                  (quiet_world ((\<lambda>_. [])(11 := [42])))))
   \<and> steal park_miller two_queues 0 1 0 (quiet_world (\<lambda>_. []))
       = Some (Inr (False, 1, 0, quiet_world (\<lambda>_. [])))"
proof -
  have n: "- 1073741824 \<le> set_n two_queues" "set_n two_queues < 1073741824"
    and n2: "set_n two_queues = 2"
    by (simp_all add: two_queues_def)
  have k: "s32 1 smod 2 = 1"
    by (simp add: s32_def signed_modulo_int_def)
  have won: "steal_best_of_2 park_miller two_queues 0 1 0 (quiet_world ((\<lambda>_. [])(11 := [42])))
       = Some (Inr (True, 1, 42,
                upd_queue 11 (\<lambda>q. q\<lparr>age := \<lparr>age_top = 1, age_tag = 0\<rparr>\<rparr>)
                  (quiet_world ((\<lambda>_. [])(11 := [42])))))"
    by (simp add: steal_best_of_2_def n2 k) (simp add: run_defs)
  have lost: "steal_best_of_2 park_miller two_queues 0 1 0 (quiet_world (\<lambda>_. []))
       = Some (Inr (False, 1, 0, quiet_world (\<lambda>_. [])))"
    by (simp add: steal_best_of_2_def n2 k) (simp add: run_defs)
  have four: "nat (2 * set_n two_queues) = Suc (Suc (Suc (Suc 0)))"
    by (simp add: n2)
  have a: "steal park_miller two_queues 0 1 0 (quiet_world ((\<lambda>_. [])(11 := [42])))
       = Some (Inr (True, 1, 42,
                upd_queue 11 (\<lambda>q. q\<lparr>age := \<lparr>age_top = 1, age_tag = 0\<rparr>\<rparr>)
                  (quiet_world ((\<lambda>_. [])(11 := [42])))))"
    using steal_spec [OF n, of park_miller 0 1 0 "quiet_world ((\<lambda>_. [])(11 := [42]))"]
    by (simp add: four won)
  have b: "steal park_miller two_queues 0 1 0 (quiet_world (\<lambda>_. []))
       = Some (Inr (False, 1, 0, quiet_world (\<lambda>_. [])))"
    using steal_spec [OF n, of park_miller 0 1 0 "quiet_world (\<lambda>_. [])"]
    by (simp add: four lost)
  from a b show ?thesis
    by (simp add: n2)
qed

text \<open>
  C7. Best-of-two on a set of more than two queues. The call returns exactly when its
  two draws end. The two victims drawn are different from the caller's own index and from
  each other; the size of the first and then of the second is sampled, and \<open>pop_global\<close>
  is attempted on the second only when its sampled size is strictly larger, otherwise (a
  tie, both sizes zero included) on the first.
\<close>

theorem steal_best_of_2_spec:
  assumes "2 < set_n s"
  shows "((\<exists>r. steal_best_of_2 rng s queue_num seed t w = Some r) \<longleftrightarrow>
          (\<exists>k1 seed1 k2 seed2.
             draw_victim rng (set_n s) (\<lambda>k. k = queue_num) queue_num seed = Some (k1, seed1) \<and>
             draw_victim rng (set_n s) (\<lambda>k. k = queue_num \<or> k = k1) queue_num seed1
               = Some (k2, seed2)))
       \<and> (\<forall>k1 seed1 k2 seed2.
             draw_victim rng (set_n s) (\<lambda>k. k = queue_num) queue_num seed = Some (k1, seed1) \<and>
             draw_victim rng (set_n s) (\<lambda>k. k = queue_num \<or> k = k1) queue_num seed1
               = Some (k2, seed2) \<longrightarrow>
             k1 \<noteq> queue_num \<and> k2 \<noteq> queue_num \<and> k2 \<noteq> k1 \<and>
             steal_best_of_2 rng s queue_num seed t w =
               Some (case size_at s k1 w of
                       Inl f \<Rightarrow> Inl f
                     | Inr (sz1, w1) \<Rightarrow>
                         (case size_at s k2 w1 of
                            Inl f \<Rightarrow> Inl f
                          | Inr (sz2, w2) \<Rightarrow>
                              pop_global_at s (if sz1 < sz2 then k2 else k1) seed2 t w2)))"
proof (intro conjI allI impI)
  show "(\<exists>r. steal_best_of_2 rng s queue_num seed t w = Some r) \<longleftrightarrow>
          (\<exists>k1 seed1 k2 seed2.
             draw_victim rng (set_n s) (\<lambda>k. k = queue_num) queue_num seed = Some (k1, seed1) \<and>
             draw_victim rng (set_n s) (\<lambda>k. k = queue_num \<or> k = k1) queue_num seed1
               = Some (k2, seed2))"
    using assms by (auto simp: steal_best_of_2_def split: option.splits)
next
  fix k1 seed1 k2 seed2
  assume d: "draw_victim rng (set_n s) (\<lambda>k. k = queue_num) queue_num seed = Some (k1, seed1) \<and>
             draw_victim rng (set_n s) (\<lambda>k. k = queue_num \<or> k = k1) queue_num seed1
               = Some (k2, seed2)"
  from d draw_victim_stops [of rng "set_n s" "\<lambda>k. k = queue_num" queue_num seed "(k1, seed1)"]
  show "k1 \<noteq> queue_num" by simp
  from d draw_victim_stops [of rng "set_n s" "\<lambda>k. k = queue_num \<or> k = k1" queue_num seed1 "(k2, seed2)"]
  show "k2 \<noteq> queue_num" and "k2 \<noteq> k1" by simp_all
  from d assms show "steal_best_of_2 rng s queue_num seed t w =
               Some (case size_at s k1 w of
                       Inl f \<Rightarrow> Inl f
                     | Inr (sz1, w1) \<Rightarrow>
                         (case size_at s k2 w1 of
                            Inl f \<Rightarrow> Inl f
                          | Inr (sz2, w2) \<Rightarrow>
                              pop_global_at s (if sz1 < sz2 then k2 else k1) seed2 t w2))"
    by (simp add: steal_best_of_2_def split: sum.splits)
qed

theorem steal_best_of_2_spec_witness:
  "2 < set_n three_queues
   \<and> draw_victim park_miller (set_n three_queues) (\<lambda>k. k = 0) 0 1 = Some (1, 16807)
   \<and> draw_victim park_miller (set_n three_queues) (\<lambda>k. k = 0 \<or> k = 1) 0 16807
       = Some (2, 1622650073)
   \<and> steal_best_of_2 park_miller three_queues 0 1 0
         (quiet_world ((\<lambda>_. [])(11 := [42], 12 := [7, 8])))
       = Some (Inr (True, 1622650073, 7,
                upd_queue 12 (\<lambda>q. q\<lparr>age := \<lparr>age_top = 1, age_tag = 0\<rparr>\<rparr>)
                  (quiet_world ((\<lambda>_. [])(11 := [42], 12 := [7, 8])))))
   \<and> steal_best_of_2 park_miller three_queues 0 1 0
         (quiet_world ((\<lambda>_. [])(11 := [42], 12 := [7])))
       = Some (Inr (True, 1622650073, 42,
                upd_queue 11 (\<lambda>q. q\<lparr>age := \<lparr>age_top = 1, age_tag = 0\<rparr>\<rparr>)
                  (quiet_world ((\<lambda>_. [])(11 := [42], 12 := [7])))))"
proof -
  have n: "2 < set_n three_queues" and n3: "set_n three_queues = 3"
    by (simp_all add: three_queues_def)
  note larger = steal_best_of_2_spec [OF n, of park_miller 0 1 0
      "quiet_world ((\<lambda>_. [])(11 := [42], 12 := [7, 8]))",
      THEN conjunct2, rule_format, of 1 16807 2 1622650073]
  note tie = steal_best_of_2_spec [OF n, of park_miller 0 1 0
      "quiet_world ((\<lambda>_. [])(11 := [42], 12 := [7]))",
      THEN conjunct2, rule_format, of 1 16807 2 1622650073]
  have a: "steal_best_of_2 park_miller three_queues 0 1 0
         (quiet_world ((\<lambda>_. [])(11 := [42], 12 := [7, 8])))
       = Some (Inr (True, 1622650073, 7,
                upd_queue 12 (\<lambda>q. q\<lparr>age := \<lparr>age_top = 1, age_tag = 0\<rparr>\<rparr>)
                  (quiet_world ((\<lambda>_. [])(11 := [42], 12 := [7, 8])))))"
    using larger by (simp add: n3 draw_3_0 draw_3_0_1) (simp add: run_defs)
  have b: "steal_best_of_2 park_miller three_queues 0 1 0
         (quiet_world ((\<lambda>_. [])(11 := [42], 12 := [7])))
       = Some (Inr (True, 1622650073, 42,
                upd_queue 11 (\<lambda>q. q\<lparr>age := \<lparr>age_top = 1, age_tag = 0\<rparr>\<rparr>)
                  (quiet_world ((\<lambda>_. [])(11 := [42], 12 := [7])))))"
    using tie by (simp add: n3 draw_3_0 draw_3_0_1) (simp add: run_defs)
  from a b show ?thesis
    by (simp add: n3 draw_3_0 draw_3_0_1)
qed

text \<open>
  C8. On a set of exactly two queues each of the three policies attempts \<open>pop_global\<close> on
  the queue with index \<open>(queue_num + 1) mod 2\<close>, the other one; on a set of exactly one
  queue each policy returns false and touches nothing (no shared access is made).
\<close>

theorem steal_degenerate:
  "(set_n s = 2 \<and> 0 \<le> queue_num \<and> queue_num < 2147483647 \<longrightarrow>
      steal_1_random rng s queue_num seed t w
        = Some (pop_global_at s ((queue_num + 1) mod 2) seed t w)
    \<and> steal_best_of_2 rng s queue_num seed t w
        = Some (pop_global_at s ((queue_num + 1) mod 2) seed t w)
    \<and> steal_best_of_all s queue_num seed t w
        = Some (pop_global_at s ((queue_num + 1) mod 2) seed t w))
   \<and> (set_n s = 2 \<and> (queue_num = 0 \<or> queue_num = 1) \<longrightarrow>
        (queue_num + 1) mod 2 = 1 - queue_num)
   \<and> (set_n s = 1 \<longrightarrow>
      steal_1_random rng s queue_num seed t w = Some (Inr (False, seed, t, w))
    \<and> steal_best_of_2 rng s queue_num seed t w = Some (Inr (False, seed, t, w))
    \<and> steal_best_of_all s queue_num seed t w = Some (Inr (False, seed, t, w)))"
  by (auto simp: steal_1_random_def steal_best_of_2_def steal_best_of_all_def Let_def other_index)

theorem steal_degenerate_witness:
  "set_n two_queues = 2
   \<and> steal_1_random park_miller two_queues 0 1 0 (quiet_world ((\<lambda>_. [])(11 := [42])))
       = Some (pop_global_at two_queues 1 1 0 (quiet_world ((\<lambda>_. [])(11 := [42]))))
   \<and> steal_best_of_2 park_miller two_queues 0 1 0 (quiet_world ((\<lambda>_. [])(11 := [42])))
       = Some (pop_global_at two_queues 1 1 0 (quiet_world ((\<lambda>_. [])(11 := [42]))))
   \<and> steal_best_of_all two_queues 0 1 0 (quiet_world ((\<lambda>_. [])(11 := [42])))
       = Some (pop_global_at two_queues 1 1 0 (quiet_world ((\<lambda>_. [])(11 := [42]))))
   \<and> pop_global_at two_queues 1 1 0 (quiet_world ((\<lambda>_. [])(11 := [42])))
       = Inr (True, 1, 42,
              upd_queue 11 (\<lambda>q. q\<lparr>age := \<lparr>age_top = 1, age_tag = 0\<rparr>\<rparr>)
                (quiet_world ((\<lambda>_. [])(11 := [42]))))
   \<and> set_n one_queue = 1
   \<and> steal_1_random park_miller one_queue 0 1 0 (quiet_world ((\<lambda>_. [])(10 := [42])))
       = Some (Inr (False, 1, 0, quiet_world ((\<lambda>_. [])(10 := [42]))))
   \<and> steal_best_of_2 park_miller one_queue 0 1 0 (quiet_world ((\<lambda>_. [])(10 := [42])))
       = Some (Inr (False, 1, 0, quiet_world ((\<lambda>_. [])(10 := [42]))))
   \<and> steal_best_of_all one_queue 0 1 0 (quiet_world ((\<lambda>_. [])(10 := [42])))
       = Some (Inr (False, 1, 0, quiet_world ((\<lambda>_. [])(10 := [42]))))"
proof -
  have two: "set_n two_queues = 2" and one: "set_n one_queue = 1"
    by (simp_all add: two_queues_def one_queue_def)
  have pg: "pop_global_at two_queues 1 1 0 (quiet_world ((\<lambda>_. [])(11 := [42])))
       = Inr (True, 1, 42,
              upd_queue 11 (\<lambda>q. q\<lparr>age := \<lparr>age_top = 1, age_tag = 0\<rparr>\<rparr>)
                (quiet_world ((\<lambda>_. [])(11 := [42]))))"
    by (simp add: run_defs)
  show ?thesis
    using
      steal_degenerate [of two_queues 0 park_miller 1 0 "quiet_world ((\<lambda>_. [])(11 := [42]))"]
      steal_degenerate [of one_queue 0 park_miller 1 0 "quiet_world ((\<lambda>_. [])(10 := [42]))"]
    by (simp add: two one pg)
qed

text \<open>
  C5. Random-1 on a set of more than two queues is to attempt \<open>pop_global\<close> on the
  index \<open>k\<close> that it draws, which differs from the caller's own index. The code draws
  \<open>k\<close> and then attempts \<open>pop_global\<close> on index \<open>2\<close>. On three queues with seed \<open>1\<close>:
  the caller \<open>0\<close> draws \<open>k = 1\<close>, whose queue holds an element that \<open>pop_global\<close> would
  take, yet the call tries the empty queue \<open>2\<close> and returns false; and the caller \<open>2\<close>
  draws \<open>k = 1\<close> and takes the element of its own queue \<open>2\<close>.
\<close>

theorem steal_1_random_ignores_victim:
  "draw_victim park_miller 3 (\<lambda>k. k = 0) 0 1 = Some (1, 16807)
   \<and> steal_1_random park_miller three_queues 0 1 0 (quiet_world ((\<lambda>_. [])(11 := [42])))
       = Some (Inr (False, 16807, 0, quiet_world ((\<lambda>_. [])(11 := [42]))))
   \<and> pop_global_at three_queues 1 16807 0 (quiet_world ((\<lambda>_. [])(11 := [42])))
       = Inr (True, 16807, 42,
              upd_queue 11 (\<lambda>q. q\<lparr>age := \<lparr>age_top = 1, age_tag = 0\<rparr>\<rparr>)
                (quiet_world ((\<lambda>_. [])(11 := [42]))))
   \<and> draw_victim park_miller 3 (\<lambda>k. k = 2) 2 1 = Some (1, 16807)
   \<and> steal_1_random park_miller three_queues 2 1 0 (quiet_world ((\<lambda>_. [])(12 := [7])))
       = Some (Inr (True, 16807, 7,
              upd_queue 12 (\<lambda>q. q\<lparr>age := \<lparr>age_top = 1, age_tag = 0\<rparr>\<rparr>)
                (quiet_world ((\<lambda>_. [])(12 := [7])))))"
proof -
  have n: "2 < set_n three_queues"
    by (simp add: three_queues_def)
  have a: "steal_1_random park_miller three_queues 0 1 0 (quiet_world ((\<lambda>_. [])(11 := [42])))
       = Some (pop_global_at three_queues 2 16807 0 (quiet_world ((\<lambda>_. [])(11 := [42]))))"
    using steal_1_random_victim [OF n, of park_miller 0 1 1 16807] draw_3_0
    by (simp add: three_queues_def)
  have b: "steal_1_random park_miller three_queues 2 1 0 (quiet_world ((\<lambda>_. [])(12 := [7])))
       = Some (pop_global_at three_queues 2 16807 0 (quiet_world ((\<lambda>_. [])(12 := [7]))))"
    using steal_1_random_victim [OF n, of park_miller 2 1 1 16807] draw_3_2
    by (simp add: three_queues_def)
  show ?thesis
    unfolding a b by (simp add: draw_3_0 draw_3_2) (simp add: run_defs)
qed

end
